theory Spec2Isabelle
  imports Complex_Main "HOL-Library.Multiset"
begin

section \<open>Data model\<close>

text \<open>
  The Path update pipeline of the scenegraph library: anchors, dirty flags, the
  arc-length table, point sampling and trimming. A JavaScript \<open>number\<close> is modelled
  as a \<^typ>\<open>real\<close>; a computation whose JavaScript value would be \<open>NaN\<close> or
  infinite is an explicit error of the model. Array indices are natural numbers or
  integers.
\<close>

datatype command = Move | Line | Curve | Arc | Close

record vec =
  vx :: real
  vy :: real

text \<open>
  An anchor: origin, the two control handles, command, the \<open>relative\<close> mode, the arc
  parameters, and the field \<open>t\<close> that \<open>getPointAt\<close> writes (undefined until then).
\<close>

record anchor =
  origin :: vec
  controls_left :: vec
  controls_right :: vec
  command :: command
  relative :: bool
  rx :: real
  ry :: real
  xAxisRotation :: real
  largeArcFlag :: real
  sweepFlag :: real
  t :: "real option"

definition vec_of :: "real \<Rightarrow> real \<Rightarrow> vec" where
  "vec_of a b = \<lparr>vx = a, vy = b\<rparr>"

text \<open>\<open>new Anchor(G20.vector(x, y))\<close> with the constructor's defaults.\<close>

definition new_Anchor :: "real \<Rightarrow> real \<Rightarrow> anchor" where
  "new_Anchor a b =
     \<lparr>origin = vec_of a b, controls_left = vec_of 0 0, controls_right = vec_of 0 0,
      command = Move, relative = True, rx = 0, ry = 0, xAxisRotation = 0,
      largeArcFlag = 0, sweepFlag = 1, t = None\<rparr>"

abbreviation ax :: "anchor \<Rightarrow> real" where "ax a \<equiv> vx (origin a)"
abbreviation ay :: "anchor \<Rightarrow> real" where "ay a \<equiv> vy (origin a)"

datatype flag = Cap | Clip | Fill | Join | Length | Linewidth | Mask | Miter | Stroke
  | VectorEffect | Vertices

datatype error = TypeError | NotFinite | DivisionByZero | Diverges

text \<open>
  The fields of \<open>Path\<close> that the pipeline reads and writes. \<open>zzz_vertices\<close> is the render
  vertex buffer: it holds references to elements of the working storage \<open>anchors\<close>, so it
  is a list of indices into \<open>anchors\<close>. \<open>vertices_subject\<close> is the buffer version
  counter.
\<close>

record path =
  vertices :: "anchor list"
  lengths :: "real list"
  length_val :: real
  flags :: "flag \<Rightarrow> bool"
  closed :: bool
  curved :: bool
  automatic :: bool
  beginning :: real
  ending :: real
  stroke_width :: real
  anchors :: "anchor list"
  zzz_vertices :: "nat list"
  vertices_subject :: nat

text \<open>\<open>Collection.getAt(index)\<close>: the element, or \<open>undefined\<close> outside the range.\<close>

definition getAt :: "'a list \<Rightarrow> int \<Rightarrow> 'a option" where
  "getAt xs i = (if 0 \<le> i \<and> i < int (length xs) then Some (xs ! nat i) else None)"

section \<open>Arc-length table\<close>

text \<open>
  The four control points of the segment from \<open>b\<close> to \<open>a\<close>, as \<open>getPointAt\<close> computes
  them: a relative handle is an offset from its anchor's origin.
\<close>

definition seg_x2 :: "anchor \<Rightarrow> real" where
  "seg_x2 b = (if relative b then vx (controls_right b) + ax b else vx (controls_right b))"
definition seg_y2 :: "anchor \<Rightarrow> real" where
  "seg_y2 b = (if relative b then vy (controls_right b) + ay b else vy (controls_right b))"
definition seg_x3 :: "anchor \<Rightarrow> real" where
  "seg_x3 a = (if relative a then vx (controls_left a) + ax a else vx (controls_left a))"
definition seg_y3 :: "anchor \<Rightarrow> real" where
  "seg_y3 a = (if relative a then vy (controls_left a) + ay a else vy (controls_left a))"

text \<open>
  Modelled from the spec: \<open>getCurveLength(a, b, limit)\<close> of \<open>utils/shape\<close> is not among
  the sources. The spec fixes it for straight segments only (both handles on their
  endpoints): the Euclidean distance of the endpoints. For any other segment the length
  is the parameter \<open>crv\<close>, the numeric approximation the spec leaves open.
\<close>

definition getCurveLength :: "(anchor \<Rightarrow> anchor \<Rightarrow> real) \<Rightarrow> anchor \<Rightarrow> anchor \<Rightarrow> real" where
  "getCurveLength crv a b =
     (if ax b = seg_x2 b \<and> ay b = seg_y2 b \<and> seg_x3 a = ax a \<and> seg_y3 a = ay a
      then sqrt ((ax a - ax b) * (ax a - ax b) + (ay a - ay b) * (ay a - ay b))
      else crv a b)"

text \<open>
  A write \<open>arr[i] = v\<close> to a JavaScript array. The loops below write the indices
  \<open>0, 1, 2, ...\<close> in order, so \<open>i\<close> is at most the array's length and a write at the
  length appends one element.
\<close>

definition array_set :: "'a list \<Rightarrow> nat \<Rightarrow> 'a \<Rightarrow> 'a list" where
  "array_set xs i v = (if i < length xs then xs[i := v] else xs @ [v])"

text \<open>
  The body of \<open>vertices.forEach\<close> in \<open>#updateLength\<close>, over the vertices from index \<open>i\<close>
  on. The state is the previous anchor \<open>b\<close>, the running sum \<open>sm\<close> and the table. The local
  constant \<open>closed\<close> of the source is \<open>false\<close>, so the branch guarded by
  \<open>i >= last && closed\<close> never runs. \<open>b\<close> is \<open>undefined\<close> for an empty collection
  only; passing \<open>undefined\<close> to \<open>getCurveLength\<close> is a TypeError.
\<close>

fun updateLength_loop ::
  "(anchor \<Rightarrow> anchor \<Rightarrow> real) \<Rightarrow> anchor list \<Rightarrow> nat \<Rightarrow> anchor option \<Rightarrow> real \<Rightarrow> real list
     \<Rightarrow> error + (real \<times> real list)" where
  "updateLength_loop crv [] i b sm ls = Inr (sm, ls)"
| "updateLength_loop crv (a # as) i b sm ls =
     (let closed = False in
      if (i \<le> 0 \<and> \<not> closed) \<or> command a = Move
      then updateLength_loop crv as (i + 1) (Some a) sm (array_set ls i 0)
      else (case b of
              None \<Rightarrow> Inl TypeError
            | Some b' \<Rightarrow>
                (let ls' = array_set ls i (getCurveLength crv a b');
                     sm' = sm + ls' ! i
                 in updateLength_loop crv as (i + 1) (Some a) sm' ls')))"

text \<open>
  \<open>#updateLength(limit, silent = true)\<close>: the table and the total are recomputed and
  the Length flag is cleared.
\<close>

definition updateLength_silent :: "(anchor \<Rightarrow> anchor \<Rightarrow> real) \<Rightarrow> path \<Rightarrow> error + path" where
  "updateLength_silent crv p =
     (let lst = int (length (vertices p)) - 1;
          b = getAt (vertices p) lst
      in case updateLength_loop crv (vertices p) 0 b 0 (lengths p) of
           Inl e \<Rightarrow> Inl e
         | Inr (sm, ls) \<Rightarrow>
             Inr (p\<lparr>lengths := ls, length_val := sm, flags := (flags p)(Length := False)\<rparr>))"

section \<open>Sampling a point\<close>

text \<open>\<open>lerp(a, b, t)\<close> of \<open>utils/math\<close>.\<close>

definition lerp :: "real \<Rightarrow> real \<Rightarrow> real \<Rightarrow> real" where
  "lerp a b u = u * (b - a) + a"

text \<open>
  \<open>mod(v, l)\<close> of \<open>utils/math\<close> on integers: \<open>while (v < 0) v += l; return v % l\<close>.
  With \<open>v < 0\<close> and \<open>l \<le> 0\<close> the loop never ends. \<open>v % 0\<close> is \<open>NaN\<close>, written
  \<open>None\<close>; the remainder takes the sign of the dividend, which is not negative here.
\<close>

definition mod_js :: "int \<Rightarrow> int \<Rightarrow> error + int option" where
  "mod_js v l =
     (if v < 0 then (if l \<le> 0 then Inl Diverges else Inr (Some (v mod l)))
      else if l = 0 then Inr None
      else Inr (Some (v mod \<bar>l\<bar>)))"

text \<open>An index that may be \<open>NaN\<close>: \<open>getAt(NaN)\<close> is \<open>undefined\<close>.\<close>

definition getAt_opt :: "'a list \<Rightarrow> int option \<Rightarrow> 'a option" where
  "getAt_opt xs i = (case i of None \<Rightarrow> None | Some j \<Rightarrow> getAt xs j)"

text \<open>
  Modelled from the spec: \<open>getComponentOnCubicBezier\<close> of \<open>utils/curves\<close> is not among
  the sources; the spec asks for the standard evaluation of a cubic bezier.
\<close>

definition getComponentOnCubicBezier :: "real \<Rightarrow> real \<Rightarrow> real \<Rightarrow> real \<Rightarrow> real \<Rightarrow> real" where
  "getComponentOnCubicBezier u a b c d =
     (let k = 1 - u
      in k * k * k * a + 3 * k * k * u * b + 3 * k * u * u * c + u * u * u * d)"

text \<open>
  The \<open>for\<close> loop of \<open>getPointAt\<close> over the table from index \<open>i\<close> on: the first index whose
  segment reaches the target, with the sum before it and the segment's length.
\<close>

fun find_segment :: "real list \<Rightarrow> nat \<Rightarrow> real \<Rightarrow> real \<Rightarrow> (nat \<times> real \<times> real) option" where
  "find_segment [] i sm target = None"
| "find_segment (l # ls) i sm target =
     (if sm + l \<ge> target then Some (i, sm, l) else find_segment ls (i + 1) (sm + l) target)"

text \<open>
  The indices \<open>ia\<close>, \<open>ib\<close> of the two anchors that enclose the target, found at table
  index \<open>i\<close>.
\<close>

definition enclosing :: "bool \<Rightarrow> int \<Rightarrow> int \<Rightarrow> error + (int option \<times> int option)" where
  "enclosing cl i Nvs =
     (if cl then
        (case mod_js i Nvs of
           Inl e \<Rightarrow> Inl e
         | Inr ia \<Rightarrow>
            (case mod_js (i - 1) Nvs of
               Inl e \<Rightarrow> Inl e
             | Inr ib \<Rightarrow> if i = 0 then Inr (ib, Some i) else Inr (ia, ib)))
      else Inr (Some i, Some (min (max (i - 1) 0) (Nvs - 1))))"

text \<open>
  The local parameter inside the segment found. The division is the partial operation
  \<open>checked_div\<close>, so a division by zero would be the error \<open>DivisionByZero\<close>.
\<close>

definition checked_div :: "real \<Rightarrow> real \<Rightarrow> error + real" where
  "checked_div a b = (if b = 0 then Inl DivisionByZero else Inr (a / b))"

definition local_t :: "real \<Rightarrow> real \<Rightarrow> error + real" where
  "local_t target l = (if l \<noteq> 0 then checked_div target l else Inr 0)"

text \<open>The assignments to \<open>ank\<close> at the end of \<open>getPointAt\<close>, for the segment from \<open>b\<close> to \<open>a\<close>.\<close>

definition populate :: "real \<Rightarrow> anchor \<Rightarrow> anchor \<Rightarrow> anchor \<Rightarrow> anchor" where
  "populate u a b ank =
     (let x1 = ax b; y1 = ay b;
          x2 = seg_x2 b; y2 = seg_y2 b;
          x3 = seg_x3 a; y3 = seg_y3 a;
          x4 = ax a; y4 = ay a;
          x = getComponentOnCubicBezier u x1 x2 x3 x4;
          y = getComponentOnCubicBezier u y1 y2 y3 y4;
          t1x = lerp x1 x2 u; t1y = lerp y1 y2 u;
          t2x = lerp x2 x3 u; t2y = lerp y2 y3 u;
          t3x = lerp x3 x4 u; t3y = lerp y3 y4 u;
          brx = lerp t1x t2x u; bry = lerp t1y t2y u;
          alx = lerp t2x t3x u; aly = lerp t2y t3y u
      in if relative ank
         then ank\<lparr>origin := vec_of x y, controls_left := vec_of (brx - x) (bry - y),
                  controls_right := vec_of (alx - x) (aly - y), t := Some u\<rparr>
         else ank\<lparr>origin := vec_of x y, controls_left := vec_of brx bry,
                  controls_right := vec_of alx aly, t := Some u\<rparr>)"

text \<open>
  What \<open>getPointAt\<close> returns: \<open>null\<close>; or one of the two looked-up anchors when the other
  lookup is \<open>undefined\<close> (\<open>if (!a) return b; else if (!b) return a;\<close>), the given anchor
  being untouched; or the given anchor, populated.
\<close>

datatype point_result = Null | Other "anchor option" | Populated anchor

text \<open>
  \<open>getPointAt(t, anchor)\<close> after the read of \<open>this.length\<close>, whose value is \<open>len\<close>. The
  given anchor is not one of the path's own vertices.
\<close>

definition getPointAt_at :: "real \<Rightarrow> path \<Rightarrow> real \<Rightarrow> anchor \<Rightarrow> error + point_result" where
  "getPointAt_at len p u ank =
     (let target = len * min (max u 0) 1;
          Nvs = int (length (vertices p))
      in case find_segment (lengths p) 0 0 target of
           None \<Rightarrow> Inr Null
         | Some (i, sm, l) \<Rightarrow>
            (case enclosing (closed p) (int i) Nvs of
               Inl e \<Rightarrow> Inl e
             | Inr (ia, ib) \<Rightarrow>
                (case local_t (target - sm) l of
                   Inl e \<Rightarrow> Inl e
                 | Inr u' \<Rightarrow>
                    (case getAt_opt (vertices p) ia of
                       None \<Rightarrow> Inr (Other (getAt_opt (vertices p) ib))
                     | Some a \<Rightarrow>
                        (case getAt_opt (vertices p) ib of
                           None \<Rightarrow> Inr (Other (Some a))
                         | Some b \<Rightarrow> Inr (Populated (populate u' a b ank)))))))"

section \<open>Trim and rebuild\<close>

text \<open>
  The helpers that are not among the sources: \<open>curveLength\<close> is the length of a segment
  that is not straight (the parameter \<open>crv\<close> of \<open>getCurveLength\<close>), \<open>curveFromPoints\<close> is
  \<open>getCurveFromPoints(vertices, closed)\<close> of \<open>utils/curves\<close>, the curve fitting that
  \<open>plot\<close> runs on a curved path.
\<close>

record utils =
  curveLength :: "anchor \<Rightarrow> anchor \<Rightarrow> real"
  curveFromPoints :: "anchor list \<Rightarrow> bool \<Rightarrow> anchor list"

text \<open>\<open>Anchor.copy(v)\<close>: every field but \<open>t\<close>.\<close>

definition anchor_copy :: "anchor \<Rightarrow> anchor \<Rightarrow> anchor" where
  "anchor_copy dst v =
     dst\<lparr>origin := origin v, command := command v, controls_left := controls_left v,
         controls_right := controls_right v, relative := relative v, rx := rx v, ry := ry v,
         xAxisRotation := xAxisRotation v, largeArcFlag := largeArcFlag v,
         sweepFlag := sweepFlag v\<rparr>"

text \<open>
  Modelled from the spec: \<open>G20.lerp(target, alpha)\<close> is not among the sources; the spec
  describes the re-projection of a handle as a linear interpolation, here \<open>lerp\<close> on
  each coordinate.
\<close>

definition vec_lerp :: "vec \<Rightarrow> vec \<Rightarrow> real \<Rightarrow> vec" where
  "vec_lerp v target alpha =
     vec_of (lerp (vx v) (vx target) alpha) (lerp (vy v) (vy target) alpha)"

text \<open>\<open>plot()\<close>.\<close>

fun plot_commands :: "nat \<Rightarrow> anchor list \<Rightarrow> anchor list" where
  "plot_commands i [] = []"
| "plot_commands i (a # as) =
     a\<lparr>command := (if i = 0 then Move else Line)\<rparr> # plot_commands (i + 1) as"

definition plot :: "utils \<Rightarrow> path \<Rightarrow> path" where
  "plot env p =
     (if curved p then p\<lparr>vertices := curveFromPoints env (vertices p) (closed p)\<rparr>
      else p\<lparr>vertices := plot_commands 0 (vertices p)\<rparr>)"

text \<open>
  Modelled from the spec: \<open>getIdByLength(path, target)\<close> of \<open>utils/shape\<close> is not among
  the sources. It is the spec's "index at length": the fractional vertex index of the
  point at arc length \<open>target\<close>, \<open>0\<close> at or before the start, the last table index at or
  beyond the total, and \<open>-1\<close> when no segment reaches the target. The divisor is not
  zero at the segment found when \<open>target > 0\<close>.
\<close>

definition getIdByLength :: "path \<Rightarrow> real \<Rightarrow> real" where
  "getIdByLength p target =
     (if target \<le> 0 then 0
      else if target \<ge> length_val p then real_of_int (int (length (lengths p)) - 1)
      else (case find_segment (lengths p) 0 0 target of
              None \<Rightarrow> - 1
            | Some (i, sm, l) \<Rightarrow> real_of_int (max (int i - 1) 0) + (target - sm) / l))"

text \<open>
  Modelled from the spec: \<open>contains(path, t)\<close> of \<open>utils/shape\<close> is not among the
  sources. A boundary anchor is synthesised only where the cut falls inside a segment,
  so \<open>contains\<close> holds when the position \<open>t\<close> falls on a vertex: at \<open>0\<close>, at \<open>1\<close>, or
  where the length elapsed before some table entry equals the target.
\<close>

fun contains_loop :: "real list \<Rightarrow> real \<Rightarrow> real \<Rightarrow> bool" where
  "contains_loop [] elapsed target = False"
| "contains_loop (d # ls) elapsed target =
     (if elapsed \<ge> target then target - elapsed \<ge> 0
      else contains_loop ls (elapsed + d) target)"

definition contains_path :: "path \<Rightarrow> real \<Rightarrow> bool" where
  "contains_path p u =
     (if u = 0 \<or> u = 1 then True else contains_loop (lengths p) 0 (length_val p * u))"

text \<open>
  The state of the loop in \<open>update\<close>: the working storage \<open>#anchors\<close>, the render buffer
  (indices into the working storage), and the variables \<open>right\<close> and \<open>left\<close>, each
  \<open>undefined\<close> or a reference to a working anchor.
\<close>

record trim =
  t_anchors :: "anchor list"
  t_buffer :: "nat list"
  t_right :: "nat option"
  t_left :: "nat option"

text \<open>\<open>arr[i]\<close> used as an object: a TypeError when it is \<open>undefined\<close>.\<close>

definition defined_at :: "'a list \<Rightarrow> int \<Rightarrow> error + 'a" where
  "defined_at xs i = (case getAt xs i of None \<Rightarrow> Inl TypeError | Some x \<Rightarrow> Inr x)"

text \<open>
  \<open>this.#anchors[i].copy(vertices.getAt(i))\<close> followed by \<open>this.getPointAt(u, v)\<close>: the
  working anchor after both. Inside \<open>update\<close> the Length flag is clear, so
  \<open>this.length\<close> is the stored total.
\<close>

definition copy_and_sample :: "path \<Rightarrow> anchor list \<Rightarrow> int \<Rightarrow> real \<Rightarrow> error + anchor" where
  "copy_and_sample p ancs i u =
     (case defined_at ancs i of
        Inl e \<Rightarrow> Inl e
      | Inr w \<Rightarrow>
         (case defined_at (vertices p) i of
            Inl e \<Rightarrow> Inl e
          | Inr src \<Rightarrow>
             (let v = anchor_copy w src
              in case getPointAt_at (length_val p) p u v of
                   Inl e \<Rightarrow> Inl e
                 | Inr (Populated v') \<Rightarrow> Inr v'
                 | Inr _ \<Rightarrow> Inr v)))"

text \<open>
  A use of \<open>v.t\<close> in arithmetic: \<open>NaN\<close> when \<open>getPointAt\<close> has never populated the anchor.
\<close>

definition t_of :: "anchor \<Rightarrow> error + real" where
  "t_of v = (case t v of None \<Rightarrow> Inl NotFinite | Some u \<Rightarrow> Inr u)"

definition clear_right :: "anchor \<Rightarrow> anchor" where
  "clear_right v = v\<lparr>controls_right := (if relative v then vec_of 0 0 else origin v)\<rparr>"

definition clear_left :: "anchor \<Rightarrow> anchor" where
  "clear_left v = v\<lparr>controls_left := (if relative v then vec_of 0 0 else origin v)\<rparr>"

text \<open>One iteration of the \<open>for\<close> loop in \<open>update\<close>, at index \<open>i\<close>.\<close>

definition update_step ::
  "path \<Rightarrow> real \<Rightarrow> real \<Rightarrow> int \<Rightarrow> int \<Rightarrow> nat \<Rightarrow> trim \<Rightarrow> error + trim" where
  "update_step p bg en lBound uBound i s =
     (let ancs = (if length (t_anchors s) \<le> i then t_anchors s @ [new_Anchor 0 0]
                  else t_anchors s)
      in if int i > uBound \<and> t_right s = None then
           (case copy_and_sample p ancs (int i) en of
              Inl e \<Rightarrow> Inl e
            | Inr v \<Rightarrow>
               (let s1 = s\<lparr>t_anchors := ancs[i := v], t_buffer := t_buffer s @ [i],
                          t_right := Some i\<rparr>
                in case getAt (vertices p) (int i - 1) of
                     None \<Rightarrow> Inr s1
                   | Some prev \<Rightarrow>
                      (let v' = clear_right v
                       in case t_of v' of
                            Inl e \<Rightarrow> Inl e
                          | Inr u \<Rightarrow>
                             (let ancs1 = ancs[i := v'];
                                  w = ancs1 ! (i - 1);
                                  w' = w\<lparr>controls_right :=
                                         vec_lerp (controls_right prev)
                                           (if relative prev then vec_of 0 0 else origin prev)
                                           (1 - u)\<rparr>
                              in Inr (s1\<lparr>t_anchors := ancs1[i - 1 := w']\<rparr>)))))
         else if int i \<ge> lBound \<and> int i \<le> uBound then
           (case defined_at ancs (int i) of
              Inl e \<Rightarrow> Inl e
            | Inr w \<Rightarrow>
               (case defined_at (vertices p) (int i) of
                  Inl e \<Rightarrow> Inl e
                | Inr src \<Rightarrow>
                   (let v = anchor_copy w src;
                        s1 = s\<lparr>t_anchors := ancs[i := v], t_buffer := t_buffer s @ [i]\<rparr>
                    in if int i = uBound \<and> contains_path p en then
                         Inr (s1\<lparr>t_right := Some i,
                                 t_anchors := ancs[i := (if \<not> closed p then clear_right v else v)]\<rparr>)
                       else if int i = lBound \<and> contains_path p bg then
                         (let v' = v\<lparr>command := Move\<rparr>
                          in Inr (s1\<lparr>t_left := Some i,
                                     t_anchors := ancs[i := (if \<not> closed p then clear_left v' else v')]\<rparr>))
                       else Inr s1)))
         else Inr (s\<lparr>t_anchors := ancs\<rparr>))"

text \<open>The \<open>for\<close> loop: \<open>k\<close> iterations from index \<open>i\<close>.\<close>

fun update_loop ::
  "path \<Rightarrow> real \<Rightarrow> real \<Rightarrow> int \<Rightarrow> int \<Rightarrow> nat \<Rightarrow> nat \<Rightarrow> trim \<Rightarrow> error + trim" where
  "update_loop p bg en lBound uBound 0 i s = Inr s"
| "update_loop p bg en lBound uBound (Suc k) i s =
     (case update_step p bg en lBound uBound i s of
        Inl e \<Rightarrow> Inl e
      | Inr s' \<Rightarrow> update_loop p bg en lBound uBound k (i + 1) s')"

text \<open>"Prepend the trimmed point if necessary."\<close>

definition prepend_trimmed :: "path \<Rightarrow> real \<Rightarrow> int \<Rightarrow> trim \<Rightarrow> error + trim" where
  "prepend_trimmed p bg lBound s =
     (if lBound > 0 \<and> t_left s = None then
        (let i = lBound - 1
         in case copy_and_sample p (t_anchors s) i bg of
              Inl e \<Rightarrow> Inl e
            | Inr v0 \<Rightarrow>
               (let v = v0\<lparr>command := Move\<rparr>;
                    s1 = s\<lparr>t_anchors := (t_anchors s)[nat i := v],
                           t_buffer := nat i # t_buffer s\<rparr>
                in case getAt (vertices p) (i + 1) of
                     None \<Rightarrow> Inr s1
                   | Some nxt \<Rightarrow>
                      (let v' = v\<lparr>controls_left := vec_of 0 0\<rparr>
                       in case t_of v' of
                            Inl e \<Rightarrow> Inl e
                          | Inr u \<Rightarrow>
                             (let ancs1 = (t_anchors s)[nat i := v'];
                                  w = ancs1 ! (nat i + 1);
                                  w' = w\<lparr>controls_left :=
                                         vec_lerp (controls_left nxt)
                                           (if relative nxt then vec_of 0 0 else origin nxt) u\<rparr>
                              in Inr (s1\<lparr>t_anchors := ancs1[nat i + 1 := w']\<rparr>)))))
      else Inr s)"

text \<open>
  Modelled from the spec: \<open>Shape.update()\<close>, the \<open>super.update()\<close> of \<open>Path.update\<close>, is
  not among the sources. By the spec flags are cleared by \<open>flagReset\<close> only, and the
  fields of the pipeline belong to \<open>Path\<close>: it leaves them as they are.
\<close>

definition Shape_update :: "path \<Rightarrow> path" where
  "Shape_update p = p"

text \<open>\<open>Path.update()\<close>.\<close>

definition update :: "utils \<Rightarrow> path \<Rightarrow> error + path" where
  "update env p =
     (if flags p Vertices then
        (let p1 = (if automatic p then plot env p else p)
         in case (if flags p1 Length then updateLength_silent (curveLength env) p1 else Inr p1) of
              Inl e \<Rightarrow> Inl e
            | Inr p2 \<Rightarrow>
               (let bg = min (beginning p2) (ending p2);
                    en = max (beginning p2) (ending p2);
                    lBound = \<lceil>getIdByLength p2 (bg * length_val p2)\<rceil>;
                    uBound = \<lfloor>getIdByLength p2 (en * length_val p2)\<rfloor>;
                    s0 = \<lparr>t_anchors = anchors p2, t_buffer = [], t_right = None,
                          t_left = None\<rparr>
                in case update_loop p2 bg en lBound uBound (length (vertices p2)) 0 s0 of
                     Inl e \<Rightarrow> Inl e
                   | Inr s1 \<Rightarrow>
                      (case prepend_trimmed p2 bg lBound s1 of
                         Inl e \<Rightarrow> Inl e
                       | Inr s2 \<Rightarrow>
                          Inr (Shape_update
                                 (p2\<lparr>anchors := t_anchors s2, zzz_vertices := t_buffer s2,
                                     vertices_subject := vertices_subject p2 + 1\<rparr>)))))
      else Inr (Shape_update p))"

text \<open>\<open>#updateLength(limit, silent)\<close>, the getter \<open>length\<close>, and \<open>getPointAt\<close>.\<close>

definition updateLength :: "utils \<Rightarrow> bool \<Rightarrow> path \<Rightarrow> error + path" where
  "updateLength env silent p =
     (case (if \<not> silent then update env p else Inr p) of
        Inl e \<Rightarrow> Inl e
      | Inr p1 \<Rightarrow> updateLength_silent (curveLength env) p1)"

definition get_length :: "utils \<Rightarrow> path \<Rightarrow> error + (real \<times> path)" where
  "get_length env p =
     (case (if flags p Length then updateLength env False p else Inr p) of
        Inl e \<Rightarrow> Inl e
      | Inr p1 \<Rightarrow> Inr (length_val p1, p1))"

definition getPointAt :: "utils \<Rightarrow> path \<Rightarrow> real \<Rightarrow> anchor \<Rightarrow> error + (point_result \<times> path)" where
  "getPointAt env p u ank =
     (case get_length env p of
        Inl e \<Rightarrow> Inl e
      | Inr (len, p1) \<Rightarrow>
         (case getPointAt_at len p1 u ank of
            Inl e \<Rightarrow> Inl e
          | Inr r \<Rightarrow> Inr (r, p1)))"

text \<open>The render vertex buffer as values: the working anchors the buffer refers to.\<close>

definition render_buffer :: "path \<Rightarrow> anchor list" where
  "render_buffer p = map (\<lambda>i. anchors p ! i) (zzz_vertices p)"

text \<open>\<open>flagReset(dirtyFlag)\<close>: the eleven flags of \<open>Path\<close>.\<close>

definition flagReset :: "bool \<Rightarrow> path \<Rightarrow> path" where
  "flagReset dirtyFlag p = p\<lparr>flags := (\<lambda>f. dirtyFlag)\<rparr>"

section \<open>Construction and setters\<close>

text \<open>
  The constructor \<open>new Path(board, vertices, closed, curved, manual)\<close>: \<open>flagReset(true)\<close>,
  then the Mask and Clip flags are cleared, and the setters that follow only set flags.
  No length has been computed yet.
\<close>

definition new_Path :: "anchor list \<Rightarrow> bool \<Rightarrow> bool \<Rightarrow> bool \<Rightarrow> path" where
  "new_Path vs cl cu manual =
     \<lparr>vertices = vs, lengths = [], length_val = 0,
      flags = (\<lambda>f. f \<noteq> Mask \<and> f \<noteq> Clip),
      closed = cl, curved = cu, automatic = \<not> manual, beginning = 0, ending = 1,
      stroke_width = 1, anchors = [], zzz_vertices = [], vertices_subject = 0\<rparr>"

definition set_beginning :: "real \<Rightarrow> path \<Rightarrow> path" where
  "set_beginning v p = p\<lparr>beginning := v, flags := (flags p)(Vertices := True)\<rparr>"

definition set_ending :: "real \<Rightarrow> path \<Rightarrow> path" where
  "set_ending v p = p\<lparr>ending := v, flags := (flags p)(Vertices := True)\<rparr>"

text \<open>
  The setter of \<open>strokeWidth\<close>. Its argument is any JavaScript value: a number, or
  something else (\<open>None\<close>), which the \<open>typeof\<close> test rejects.
\<close>

definition set_strokeWidth :: "real option \<Rightarrow> path \<Rightarrow> path" where
  "set_strokeWidth w p =
     (case w of
        None \<Rightarrow> p
      | Some v \<Rightarrow>
         if stroke_width p \<noteq> v
         then p\<lparr>stroke_width := v, flags := (flags p)(Linewidth := True)\<rparr>
         else p)"

section \<open>Subscriptions\<close>

text \<open>
  Modelled from the spec: \<open>Collection\<close> and the observables \<open>insert$\<close>, \<open>remove$\<close> and
  \<open>change$\<close> are not among the sources. By the spec a Collection is an ordered sequence
  of anchors that emits one insertion or removal event per structural mutation, carrying
  the affected items, and an anchor emits a change notification, synchronously, whenever
  one of its fields (its origin among them) is mutated. A subscription registers a
  callback until it is disposed; subscribing alone emits nothing.

  Anchors and collections are objects: each is a natural number, its identity.
  \<open>w_colls\<close> is the content of every collection. The remaining fields are those of the
  path: \<open>#vertices\<close>, the two collection subscriptions (the collection each listens to),
  \<open>#anchor_change_map\<close>, and the subscriptions of the path to anchors' \<open>change$\<close> that
  have not been disposed, each a pair of subscription and anchor.
\<close>

record wiring =
  w_flags :: "flag \<Rightarrow> bool"
  w_vertices :: "nat option"
  w_vertices_insert :: "nat option"
  w_vertices_remove :: "nat option"
  w_anchor_change_map :: "nat \<Rightarrow> nat option"
  w_live :: "(nat \<times> nat) list"
  w_next :: nat
  w_colls :: "nat \<Rightarrow> nat list"

text \<open>
  \<open>anchor.change$.subscribe(() => { this.flags[Flag.Vertices] = true; })\<close> followed by
  \<open>this.#anchor_change_map.set(anchor, subscription)\<close>.
\<close>

definition subscribe_anchor :: "nat \<Rightarrow> wiring \<Rightarrow> wiring" where
  "subscribe_anchor a w =
     w\<lparr>w_live := (w_next w, a) # w_live w,
       w_anchor_change_map := (w_anchor_change_map w)(a := Some (w_next w)),
       w_next := w_next w + 1\<rparr>"

text \<open>The setter of \<open>vertices\<close>, given a Collection.\<close>

definition set_vertices :: "nat \<Rightarrow> wiring \<Rightarrow> wiring" where
  "set_vertices c w =
     (let w1 = w\<lparr>w_vertices_insert := None, w_vertices_remove := None\<rparr>;
          w2 = w1\<lparr>w_vertices := Some c\<rparr>;
          w3 = w2\<lparr>w_vertices_insert := Some c, w_vertices_remove := Some c\<rparr>
      in fold subscribe_anchor (w_colls w3 c) w3)"

text \<open>
  The callback on \<open>insert$\<close>: \<open>let i = inserts.length; while (i--) ...\<close> visits the items
  from the last to the first.
\<close>

definition on_insert :: "nat list \<Rightarrow> wiring \<Rightarrow> wiring" where
  "on_insert inserts w =
     (let w1 = fold subscribe_anchor (rev inserts) w
      in w1\<lparr>w_flags := (w_flags w1)(Vertices := True)\<rparr>)"

text \<open>
  The callback on \<open>remove$\<close>. \<open>subscription.dispose()\<close> on an anchor that is not in the
  map is a TypeError.
\<close>

fun dispose_anchors :: "nat list \<Rightarrow> wiring \<Rightarrow> error + wiring" where
  "dispose_anchors [] w = Inr w"
| "dispose_anchors (a # as) w =
     (case w_anchor_change_map w a of
        None \<Rightarrow> Inl TypeError
      | Some s \<Rightarrow>
         dispose_anchors as
           (w\<lparr>w_live := removeAll (s, a) (w_live w),
              w_anchor_change_map := (w_anchor_change_map w)(a := None)\<rparr>))"

definition on_remove :: "nat list \<Rightarrow> wiring \<Rightarrow> error + wiring" where
  "on_remove removes w =
     (case dispose_anchors (rev removes) w of
        Inl e \<Rightarrow> Inl e
      | Inr w1 \<Rightarrow> Inr (w1\<lparr>w_flags := (w_flags w1)(Vertices := True)\<rparr>))"

text \<open>
  The events. A collection \<open>c\<close> inserts items at a position, or removes one occurrence of
  each item, and notifies the path when the path is subscribed to it. An anchor \<open>a\<close> is
  mutated and notifies the path through every live subscription on it.
\<close>

definition collection_insert :: "nat \<Rightarrow> nat \<Rightarrow> nat list \<Rightarrow> wiring \<Rightarrow> wiring" where
  "collection_insert c k items w =
     (let xs = w_colls w c;
          w1 = w\<lparr>w_colls := (w_colls w)(c := take k xs @ items @ drop k xs)\<rparr>
      in if w_vertices_insert w1 = Some c then on_insert items w1 else w1)"

definition collection_remove :: "nat \<Rightarrow> nat list \<Rightarrow> wiring \<Rightarrow> error + wiring" where
  "collection_remove c items w =
     (let w1 = w\<lparr>w_colls := (w_colls w)(c := foldr remove1 items (w_colls w c))\<rparr>
      in if w_vertices_remove w1 = Some c then on_remove items w1 else Inr w1)"

definition anchor_change :: "nat \<Rightarrow> wiring \<Rightarrow> wiring" where
  "anchor_change a w =
     (if a \<in> snd ` set (w_live w) then w\<lparr>w_flags := (w_flags w)(Vertices := True)\<rparr> else w)"

text \<open>
  The wiring of a path built by the constructor with the Collection \<open>c\<close>: the flags after
  \<open>flagReset(true)\<close> (Mask and Clip cleared), then \<open>this.vertices = new Collection(vertices)\<close>.
\<close>

definition new_wiring :: "(nat \<Rightarrow> nat list) \<Rightarrow> nat \<Rightarrow> wiring" where
  "new_wiring colls c =
     set_vertices c
       \<lparr>w_flags = (\<lambda>f. f \<noteq> Mask \<and> f \<noteq> Clip), w_vertices = None, w_vertices_insert = None,
        w_vertices_remove = None, w_anchor_change_map = (\<lambda>a. None), w_live = [], w_next = 0,
        w_colls = colls\<rparr>"

definition w_flagReset :: "bool \<Rightarrow> wiring \<Rightarrow> wiring" where
  "w_flagReset dirtyFlag w = w\<lparr>w_flags := (\<lambda>f. dirtyFlag)\<rparr>"

text \<open>The wirings a path can be in: built by the constructor, then any events.\<close>

inductive reachable :: "wiring \<Rightarrow> bool" where
  built: "reachable (new_wiring colls c)"
| assigned: "reachable w \<Longrightarrow> reachable (set_vertices c w)"
| inserted: "reachable w \<Longrightarrow> reachable (collection_insert c k items w)"
| removed: "reachable w \<Longrightarrow> collection_remove c items w = Inr w' \<Longrightarrow> reachable w'"
| changed: "reachable w \<Longrightarrow> reachable (anchor_change a w)"
| reset: "reachable w \<Longrightarrow> reachable (w_flagReset d w)"

section \<open>Notions used in the properties\<close>

text \<open>An anchor whose two handles lie on its origin: the segments at it are straight.\<close>

definition uncurved :: "anchor \<Rightarrow> bool" where
  "uncurved a \<longleftrightarrow> seg_x2 a = ax a \<and> seg_y2 a = ay a \<and> seg_x3 a = ax a \<and> seg_y3 a = ay a"

text \<open>
  The table that \<open>#updateLength\<close> computes for a vertex list: \<open>0\<close> for the first vertex,
  and for each later vertex \<open>0\<close> after a move, else the length of the segment from the
  vertex before it.
\<close>

fun seg_table :: "(anchor \<Rightarrow> anchor \<Rightarrow> real) \<Rightarrow> anchor \<Rightarrow> anchor list \<Rightarrow> real list" where
  "seg_table crv b [] = []"
| "seg_table crv b (a # as) =
     (if command a = Move then 0 else getCurveLength crv a b) # seg_table crv a as"

definition length_table :: "(anchor \<Rightarrow> anchor \<Rightarrow> real) \<Rightarrow> anchor list \<Rightarrow> real list" where
  "length_table crv vs = (case vs of [] \<Rightarrow> [] | a # as \<Rightarrow> 0 # seg_table crv a as)"

text \<open>
  The total that would include the closing segment of a closed path, from the last vertex
  back to the first: the sum of the table's segments plus that segment.
\<close>

definition length_with_wraparound :: "(anchor \<Rightarrow> anchor \<Rightarrow> real) \<Rightarrow> anchor list \<Rightarrow> real" where
  "length_with_wraparound crv vs =
     (case vs of
        [] \<Rightarrow> 0
      | a # as \<Rightarrow> sum_list (seg_table crv a as) + getCurveLength crv a (last vs))"

text \<open>
  The setter of \<open>vertices\<close> on the fields of the pipeline: the anchors of the new
  Collection, as values. The setter writes no flag.
\<close>

definition assign_vertices :: "anchor list \<Rightarrow> path \<Rightarrow> path" where
  "assign_vertices vs p = p\<lparr>vertices := vs\<rparr>"

section \<open>Example paths\<close>

text \<open>Helpers for paths without curves: no segment needs the numeric approximation.\<close>

definition no_curves :: "anchor \<Rightarrow> anchor \<Rightarrow> real" where
  "no_curves a b = 0"

definition keep_points :: "anchor list \<Rightarrow> bool \<Rightarrow> anchor list" where
  "keep_points vs cl = vs"

definition straight_utils :: utils where
  "straight_utils = \<lparr>curveLength = no_curves, curveFromPoints = keep_points\<rparr>"

definition line_to :: "real \<Rightarrow> real \<Rightarrow> anchor" where
  "line_to a b = (new_Anchor a b)\<lparr>command := Line\<rparr>"

text \<open>The open path with the vertices \<open>(0,0), (3,0), (3,4)\<close>, as the constructor builds it.\<close>

definition open_345 :: path where
  "open_345 = new_Path [new_Anchor 0 0, new_Anchor 3 0, new_Anchor 3 4] False False False"

text \<open>The same path with straight segments plotted: commands move, line, line.\<close>

definition open_345_plotted :: path where
  "open_345_plotted = assign_vertices [new_Anchor 0 0, line_to 3 0, line_to 3 4] open_345"

text \<open>The closed triangle \<open>(0,0), (4,0), (0,4)\<close> with straight segments.\<close>

definition closed_triangle :: path where
  "closed_triangle = new_Path [new_Anchor 0 0, line_to 4 0, line_to 0 4] True False False"

text \<open>The open path above after its lengths have been computed.\<close>

definition measured_345 :: path where
  "measured_345 =
     open_345_plotted\<lparr>lengths := [0, 3, 4], length_val := 7,
                      flags := (flags open_345_plotted)(Length := False)\<rparr>"

text \<open>
  The same path when its Collection has then been replaced by one with the two vertices
  \<open>(0,0), (3,0)\<close>.
\<close>

definition shrunk_path :: path where
  "shrunk_path = assign_vertices [new_Anchor 0 0, line_to 3 0] measured_345"

text \<open>The path \<open>measured_345\<close> when its Collection has then been replaced by an empty one.\<close>

definition emptied_path :: path where
  "emptied_path = assign_vertices [] measured_345"

text \<open>An open path with the four vertices \<open>(0,0), (3,0), (3,4), (0,4)\<close> and straight segments.\<close>

definition open_3450 :: path where
  "open_3450 =
     new_Path [new_Anchor 0 0, line_to 3 0, line_to 3 4, line_to 0 4] False False False"

text \<open>A path of the single vertex \<open>(1,2)\<close> after its lengths have been computed.\<close>

definition dot_path :: path where
  "dot_path =
     (new_Path [new_Anchor 1 2] False False False)
       \<lparr>lengths := [0], length_val := 0,
        flags := (\<lambda>f. f \<noteq> Mask \<and> f \<noteq> Clip \<and> f \<noteq> Length)\<rparr>"

text \<open>
  The open path \<open>(0,0), (3,0), (3,4)\<close> as the constructor builds it, with
  \<open>beginning = 0\<close> and \<open>ending = 0.5\<close>.
\<close>

definition trimmed_345 :: path where
  "trimmed_345 = set_ending (1 / 2) (set_beginning 0 open_345)"

text \<open>
  The anchors the path is subscribed to, each as often as it has live subscriptions, and
  the bookkeeping that the callbacks keep: an anchor in the map has its subscription live,
  and subscriptions are distinct objects.
\<close>

definition subscribed :: "wiring \<Rightarrow> nat multiset" where
  "subscribed w = image_mset snd (mset (w_live w))"

definition subs_ok :: "wiring \<Rightarrow> bool" where
  "subs_ok w \<longleftrightarrow>
     (\<forall>a s. w_anchor_change_map w a = Some s \<longrightarrow> (s, a) \<in> set (w_live w))
     \<and> distinct (map fst (w_live w))
     \<and> (\<forall>x \<in> set (w_live w). fst x < w_next w)"

definition wiring_inv :: "wiring \<Rightarrow> bool" where
  "wiring_inv w \<longleftrightarrow>
     (\<exists>c. w_vertices w = Some c \<and> w_vertices_insert w = Some c \<and> w_vertices_remove w = Some c
          \<and> mset (w_colls w c) \<subseteq># subscribed w)
     \<and> subs_ok w"

text \<open>
  Two collections: number \<open>0\<close> holds the single anchor \<open>7\<close>, every other one is empty.
  \<open>rewired\<close> is a path built with collection \<open>0\<close>, rendered (\<open>flagReset(false)\<close>), whose
  \<open>vertices\<close> are then assigned the empty collection \<open>1\<close>.
\<close>

definition two_colls :: "nat \<Rightarrow> nat list" where
  "two_colls c = (if c = 0 then [7] else [])"

definition rewired :: wiring where
  "rewired = set_vertices 1 (w_flagReset False (new_wiring two_colls 0))"

section \<open>Notions used for two updates in a row\<close>

text \<open>
  The sample at \<open>u\<close> is found: \<open>getPointAt\<close> populates the anchor it is given. Otherwise it
  returns \<open>null\<close> or the neighbouring vertex, or throws, and the anchor keeps its fields.
\<close>

definition found :: "path \<Rightarrow> real \<Rightarrow> bool" where
  "found p u \<longleftrightarrow> (\<exists>v. getPointAt_at (length_val p) p u (new_Anchor 0 0) = Inr (Populated v))"

text \<open>
  The working storage at the start of iteration \<open>i\<close>: one fresh anchor is pushed when the
  storage has no element \<open>i\<close> yet.
\<close>

definition pad :: "nat \<Rightarrow> anchor list \<Rightarrow> anchor list" where
  "pad i ancs = (if length ancs \<le> i then ancs @ [new_Anchor 0 0] else ancs)"

text \<open>
  The working anchor that iteration \<open>j\<close> finds: the stored one, or the fresh one.
\<close>

definition padded :: "anchor list \<Rightarrow> nat \<Rightarrow> anchor" where
  "padded A j = (if j < length A then A ! j else new_Anchor 0 0)"

text \<open>
  The one index at which the second run may meet another \<open>t\<close> than the first: the lower
  cut is found and stored there by the first run, the sample of the upper cut falls on the
  same index and is not found.
\<close>

definition exceptional :: "path \<Rightarrow> real \<Rightarrow> real \<Rightarrow> int \<Rightarrow> int \<Rightarrow> nat \<Rightarrow> bool" where
  "exceptional p bg en lB uB j \<longleftrightarrow>
     0 < lB \<and> found p bg \<and> \<not> found p en \<and> int j = lB - 1 \<and> j = nat (uB + 1)"

text \<open>
  Two runs of the loop, from different working storages, have reached index \<open>i\<close> with the
  same buffer, the same \<open>right\<close> and \<open>left\<close>, equal working anchors at the buffer's
  indices (the exceptional one apart), and equal \<open>t\<close> fields at the indices still to come
  whose \<open>t\<close> is read: those between the bounds, the index after the upper bound when the
  upper cut is not found, and the index before the lower bound when the lower cut is not
  found. The remaining conjuncts say where the loop stands with respect to the bounds.
\<close>

definition agree ::
  "path \<Rightarrow> real \<Rightarrow> real \<Rightarrow> int \<Rightarrow> int \<Rightarrow> nat \<Rightarrow> trim \<Rightarrow> trim \<Rightarrow> bool" where
  "agree p bg en lB uB i s s' \<longleftrightarrow>
     t_buffer s' = t_buffer s \<and> t_right s' = t_right s \<and> t_left s' = t_left s
     \<and> i \<le> length (t_anchors s) \<and> i \<le> length (t_anchors s')
     \<and> (\<forall>j \<in> set (t_buffer s). j < i
           \<and> (exceptional p bg en lB uB j \<or> padded (t_anchors s') j = padded (t_anchors s) j))
     \<and> (\<forall>j. i \<le> j \<longrightarrow> (lB \<le> int j \<and> int j \<le> uB) \<or> (j = nat (uB + 1) \<and> \<not> found p en)
            \<longrightarrow> exceptional p bg en lB uB j
              \<or> t (padded (t_anchors s') j) = t (padded (t_anchors s) j))
     \<and> (\<forall>j. i \<le> j \<longrightarrow> exceptional p bg en lB uB j \<longrightarrow> t (padded (t_anchors s') j) \<noteq> None)
     \<and> (t_right s = None \<longrightarrow> i \<le> nat (uB + 1) \<and> (\<forall>j \<in> set (t_buffer s). lB \<le> int j))
     \<and> (t_left s \<noteq> None \<longrightarrow> lB \<le> uB)
     \<and> (t_right s \<noteq> None \<longrightarrow> lB \<le> uB \<or> nat (uB + 1) < i)
     \<and> (0 < lB \<longrightarrow> \<not> found p bg
          \<longrightarrow> nat (lB - 1) < i \<or> nat (lB - 1) \<noteq> nat (uB + 1) \<or> \<not> found p en
          \<longrightarrow> t (padded (t_anchors s') (nat (lB - 1))) = t (padded (t_anchors s) (nat (lB - 1))))"

text \<open>
  The working anchor that iteration \<open>i\<close> stores when \<open>i\<close> lies between the bounds.
\<close>

definition keep_value :: "path \<Rightarrow> real \<Rightarrow> real \<Rightarrow> int \<Rightarrow> int \<Rightarrow> nat \<Rightarrow> anchor \<Rightarrow> anchor" where
  "keep_value p bg en lB uB i w =
     (let v = anchor_copy w (vertices p ! i)
      in if int i = uB \<and> contains_path p en then (if \<not> closed p then clear_right v else v)
         else if int i = lB \<and> contains_path p bg
         then (if \<not> closed p then clear_left (v\<lparr>command := Move\<rparr>) else v\<lparr>command := Move\<rparr>)
         else v)"

text \<open>
  The re-projection of the right handle of the anchor before the upper cut.
\<close>

definition project_right :: "anchor \<Rightarrow> anchor \<Rightarrow> real \<Rightarrow> anchor" where
  "project_right w prev u =
     w\<lparr>controls_right := vec_lerp (controls_right prev)
          (if relative prev then vec_of 0 0 else origin prev) (1 - u)\<rparr>"

text \<open>
  The working storage after the iteration that samples the upper cut at index \<open>i\<close>.
\<close>

definition sample_anchors :: "path \<Rightarrow> nat \<Rightarrow> anchor \<Rightarrow> real \<Rightarrow> anchor list \<Rightarrow> anchor list" where
  "sample_anchors p i v u ancs =
     (case getAt (vertices p) (int i - 1) of
        None \<Rightarrow> ancs[i := v]
      | Some prev \<Rightarrow>
          (ancs[i := clear_right v])
            [i - 1 := project_right (padded (ancs[i := clear_right v]) (i - 1)) prev u])"

text \<open>
  The re-projection of the left handle of the anchor after the lower cut.
\<close>

definition project_left :: "anchor \<Rightarrow> anchor \<Rightarrow> real \<Rightarrow> anchor" where
  "project_left w nxt u =
     w\<lparr>controls_left := vec_lerp (controls_left nxt)
          (if relative nxt then vec_of 0 0 else origin nxt) u\<rparr>"

text \<open>
  The working storage after the lower cut has been sampled at index \<open>x\<close>.
\<close>

definition prepend_anchors :: "path \<Rightarrow> nat \<Rightarrow> anchor \<Rightarrow> real \<Rightarrow> anchor list \<Rightarrow> anchor list" where
  "prepend_anchors p x v u ancs =
     (case getAt (vertices p) (int x + 1) of
        None \<Rightarrow> ancs[x := v\<lparr>command := Move\<rparr>]
      | Some nxt \<Rightarrow>
          (ancs[x := v\<lparr>command := Move, controls_left := vec_of 0 0\<rparr>])
            [x + 1 := project_left
               (padded (ancs[x := v\<lparr>command := Move, controls_left := vec_of 0 0\<rparr>]) (x + 1))
               nxt u])"

text \<open>
  The state in which the loop of \<open>update\<close> starts.
\<close>

definition start_trim :: "anchor list \<Rightarrow> trim" where
  "start_trim A = \<lparr>t_anchors = A, t_buffer = [], t_right = None, t_left = None\<rparr>"

text \<open>
  The loop of \<open>update\<close> and the prepending of the trimmed point, from a working storage.
\<close>

definition rebuild :: "path \<Rightarrow> anchor list \<Rightarrow> error + trim" where
  "rebuild p A =
     (let bg = min (beginning p) (ending p);
          en = max (beginning p) (ending p);
          lBound = \<lceil>getIdByLength p (bg * length_val p)\<rceil>;
          uBound = \<lfloor>getIdByLength p (en * length_val p)\<rfloor>
      in case update_loop p bg en lBound uBound (length (vertices p)) 0 (start_trim A) of
           Inl e \<Rightarrow> Inl e
         | Inr s1 \<Rightarrow> prepend_trimmed p bg lBound s1)"

text \<open>
  The path on which the loop of \<open>update\<close> runs: after \<open>plot()\<close> on an automatic path and
  after the length recomputation when the Length flag is set.
\<close>

definition prepared :: "utils \<Rightarrow> path \<Rightarrow> path" where
  "prepared env p =
     (let p1 = (if automatic p then plot env p else p)
      in if flags p1 Length
         then p1\<lparr>lengths := length_table (curveLength env) (vertices p1)
                              @ drop (length (vertices p1)) (lengths p1),
                  length_val := sum_list (length_table (curveLength env) (vertices p1)),
                  flags := (flags p1)(Length := False)\<rparr>
         else p1)"

section \<open>Properties of the arc-length table\<close>

lemma sqrt_9: "sqrt 9 = 3"
  by (rule real_sqrt_unique) simp_all

lemma sqrt_16: "sqrt 16 = 4"
  by (rule real_sqrt_unique) simp_all

lemma length_seg_table [simp]: "length (seg_table crv b as) = length as"
  by (induction as arbitrary: b) simp_all

lemma length_length_table [simp]: "length (length_table crv vs) = length vs"
  by (simp add: length_table_def split: list.splits)

lemma array_set_take_drop:
  "i \<le> length ls \<Longrightarrow> array_set ls i v = take i ls @ v # drop (Suc i) ls"
  by (auto simp: array_set_def upd_conv_take_nth_drop)

lemma array_set_nth: "i \<le> length ls \<Longrightarrow> array_set ls i v ! i = v"
  by (auto simp: array_set_def nth_append)

text \<open>The loop from an index \<open>i > 0\<close> on, where the previous anchor is defined.\<close>

lemma updateLength_loop_tail:
  "0 < i \<Longrightarrow> i \<le> length ls \<Longrightarrow>
   updateLength_loop crv as i (Some b) sm ls =
     Inr (sm + sum_list (seg_table crv b as),
          take i ls @ seg_table crv b as @ drop (i + length as) ls)"
proof (induction as arbitrary: i b sm ls)
  case Nil
  then show ?case by simp
next
  case (Cons a as)
  let ?v = "if command a = Move then 0 else getCurveLength crv a b"
  have len: "Suc i \<le> length (array_set ls i ?v)"
    using Cons.prems by (simp add: array_set_def)
  have tk: "take (Suc i) (array_set ls i ?v) = take i ls @ [?v]"
    using Cons.prems by (simp add: array_set_take_drop)
  have dr: "drop (Suc i + length as) (array_set ls i ?v) = drop (i + length (a # as)) ls"
    using Cons.prems by (simp add: array_set_take_drop add.commute)
  have step: "updateLength_loop crv (a # as) i (Some b) sm ls =
      updateLength_loop crv as (Suc i) (Some a) (sm + ?v) (array_set ls i ?v)"
    using Cons.prems by (simp add: Let_def array_set_nth)
  show ?case
    unfolding step using Cons.IH [of "Suc i" "array_set ls i ?v" a "sm + ?v"] len tk dr
    by simp
qed

lemma updateLength_loop_start:
  "updateLength_loop crv vs 0 b 0 ls =
     Inr (sum_list (length_table crv vs), length_table crv vs @ drop (length vs) ls)"
proof (cases vs)
  case Nil
  then show ?thesis by (simp add: length_table_def)
next
  case (Cons a as)
  have len: "1 \<le> length (array_set ls 0 (0::real))"
    by (cases ls) (simp_all add: array_set_def)
  have "updateLength_loop crv vs 0 b 0 ls =
      updateLength_loop crv as 1 (Some a) 0 (array_set ls 0 0)"
    using Cons by (simp add: Let_def)
  also have "\<dots> = Inr (0 + sum_list (seg_table crv a as),
      take 1 (array_set ls 0 0) @ seg_table crv a as
        @ drop (1 + length as) (array_set ls 0 (0::real)))"
    using len by (intro updateLength_loop_tail) simp_all
  also have "take 1 (array_set ls 0 (0::real)) = [0]"
    by (cases ls) (simp_all add: array_set_def)
  also have "drop (1 + length as) (array_set ls 0 (0::real)) = drop (length vs) ls"
    using Cons by (cases ls) (simp_all add: array_set_def)
  finally show ?thesis using Cons by (simp add: length_table_def)
qed

text \<open>
  The silent recomputation, which runs no \<open>update()\<close>, never fails. It overwrites the
  first \<open>vertices.length\<close> entries of the table and keeps the entries beyond them.
\<close>

lemma updateLength_silent_eq:
  "updateLength_silent crv p =
     Inr (p\<lparr>lengths := length_table crv (vertices p) @ drop (length (vertices p)) (lengths p),
            length_val := sum_list (length_table crv (vertices p)),
            flags := (flags p)(Length := False)\<rparr>)"
  by (simp add: updateLength_silent_def updateLength_loop_start)

lemma getCurveLength_straight:
  "uncurved a \<Longrightarrow> uncurved b \<Longrightarrow>
   getCurveLength crv a b =
     sqrt ((ax a - ax b) * (ax a - ax b) + (ay a - ay b) * (ay a - ay b))"
  by (simp add: getCurveLength_def uncurved_def)

lemma uncurved_new_Anchor [simp]: "uncurved (new_Anchor x y)"
  by (simp add: uncurved_def new_Anchor_def seg_x2_def seg_y2_def seg_x3_def seg_y3_def vec_of_def)

lemma uncurved_line_to [simp]: "uncurved (line_to x y)"
  by (simp add: uncurved_def line_to_def new_Anchor_def seg_x2_def seg_y2_def seg_x3_def
      seg_y3_def vec_of_def)

lemma origin_new_Anchor: "origin (new_Anchor x y) = vec_of x y"
  by (simp add: new_Anchor_def)

lemma origin_line_to: "origin (line_to x y) = vec_of x y"
  by (simp add: line_to_def new_Anchor_def)

lemma getCurveLength_points:
  assumes "uncurved a" and "uncurved b"
    and "origin a = vec_of x y" and "origin b = vec_of x' y'"
  shows "getCurveLength crv a b = sqrt ((x - x') * (x - x') + (y - y') * (y - y'))"
  using assms by (simp add: getCurveLength_straight vec_of_def)

text \<open>
  C3, as stated, fails: on the closed triangle \<open>(0,0), (4,0), (0,4)\<close> the table has three
  entries, but the total leaves out the segment from the last vertex back to the first.
\<close>

theorem closed_wraparound_counterexample:
  "\<exists>q. updateLength_silent no_curves closed_triangle = Inr q \<and> length (lengths q) = 3
     \<and> length_val q \<noteq> length_with_wraparound no_curves (vertices q)"
proof -
  have g: "getCurveLength no_curves (new_Anchor 0 0) (line_to 0 4) = 4"
    using getCurveLength_points
      [OF uncurved_new_Anchor uncurved_line_to origin_new_Anchor origin_line_to,
        of no_curves 0 0 0 4]
    by (simp add: sqrt_16)
  show ?thesis
    by (simp add: updateLength_silent_eq closed_triangle_def new_Path_def length_table_def
        length_with_wraparound_def g)
qed

text \<open>
  C3, amended. A closed path with exactly the vertices \<open>(0,0), (4,0), (0,4)\<close>, joined by
  straight segments, whose table had at most three entries before: after the length
  recomputation the table has three entries, \<open>[0, 4, sqrt 32]\<close>, and the total is the sum
  of the two segments between consecutive vertices, \<open>4 + sqrt 32\<close>. The closing segment
  from the last vertex back to the first, of length \<open>4\<close>, is not part of the total.
\<close>

theorem closed_wraparound_amended:
  assumes "vertices p = [a0, a1, a2]"
    and "origin a0 = vec_of 0 0" and "origin a1 = vec_of 4 0" and "origin a2 = vec_of 0 4"
    and "uncurved a0" and "uncurved a1" and "uncurved a2"
    and "command a1 \<noteq> Move" and "command a2 \<noteq> Move"
    and "closed p"
    and "length (lengths p) \<le> 3"
  shows "\<exists>p'. updateLength_silent crv p = Inr p' \<and> length (lengths p') = 3
     \<and> lengths p' = [0, 4, sqrt 32] \<and> length_val p' = 4 + sqrt 32
     \<and> length_val p' = length_with_wraparound crv (vertices p') - 4"
proof -
  have g1: "getCurveLength crv a1 a0 = 4"
    using assms by (simp add: getCurveLength_straight vec_of_def sqrt_16)
  have g2: "getCurveLength crv a2 a1 = sqrt 32"
    using assms by (simp add: getCurveLength_straight vec_of_def)
  have g3: "getCurveLength crv a0 a2 = 4"
    using assms by (simp add: getCurveLength_straight vec_of_def sqrt_16)
  have tab: "length_table crv [a0, a1, a2] = [0, 4, sqrt 32]"
    using assms g1 g2 by (simp add: length_table_def)
  have wrap: "length_with_wraparound crv [a0, a1, a2] = 4 + sqrt 32 + 4"
    using assms g1 g2 g3 by (simp add: length_with_wraparound_def)
  show ?thesis
    using assms(1,11) by (simp add: updateLength_silent_eq tab wrap)
qed

theorem closed_wraparound_amended_witness:
  "\<exists>p'. updateLength_silent no_curves closed_triangle = Inr p' \<and> length (lengths p') = 3
     \<and> lengths p' = [0, 4, sqrt 32] \<and> length_val p' = 4 + sqrt 32
     \<and> length_val p' = length_with_wraparound no_curves (vertices p') - 4"
proof -
  have v: "vertices closed_triangle = [new_Anchor 0 0, line_to 4 0, line_to 0 4]"
    by (simp add: closed_triangle_def new_Path_def)
  have o: "origin (new_Anchor 0 0) = vec_of 0 0" "origin (line_to 4 0) = vec_of 4 0"
    "origin (line_to 0 4) = vec_of 0 4"
    by (simp_all add: new_Anchor_def line_to_def)
  have c: "command (line_to 4 0) \<noteq> Move" "command (line_to 0 4) \<noteq> Move"
    by (simp_all add: line_to_def)
  have cl: "closed closed_triangle"
    by (simp add: closed_triangle_def new_Path_def)
  have l: "length (lengths closed_triangle) \<le> 3"
    by (simp add: closed_triangle_def new_Path_def)
  show ?thesis
    using closed_wraparound_amended
      [OF v o uncurved_new_Anchor uncurved_line_to uncurved_line_to c cl l]
    by simp
qed

text \<open>The example \<open>shrunk_path\<close> arises from a length recomputation and an assignment.\<close>

lemma shrunk_path_reached:
  "\<exists>q. updateLength_silent no_curves open_345_plotted = Inr q
     \<and> shrunk_path = assign_vertices [new_Anchor 0 0, line_to 3 0] q"
proof -
  have g1: "getCurveLength no_curves (line_to 3 0) (new_Anchor 0 0) = 3"
    using getCurveLength_points
      [OF uncurved_line_to uncurved_new_Anchor origin_line_to origin_new_Anchor,
        of no_curves 3 0 0 0]
    by (simp add: sqrt_9)
  have g2: "getCurveLength no_curves (line_to 3 4) (line_to 3 0) = 4"
    using getCurveLength_points
      [OF uncurved_line_to uncurved_line_to origin_line_to origin_line_to,
        of no_curves 3 4 3 0]
    by (simp add: sqrt_16)
  have c: "command (line_to 3 0) \<noteq> Move" "command (line_to 3 4) \<noteq> Move"
    by (simp_all add: line_to_def)
  show ?thesis
    using c
    by (simp add: updateLength_silent_eq shrunk_path_def measured_345_def
        open_345_plotted_def open_345_def new_Path_def assign_vertices_def length_table_def
        g1 g2)
qed

section \<open>Properties of point sampling\<close>

lemma local_t_eq: "local_t target l = Inr (if l \<noteq> 0 then target / l else 0)"
  by (simp add: local_t_def checked_div_def)

lemma getPointAt_at_None:
  "find_segment (lengths p) 0 0 (len * min (max u 0) 1) = None \<Longrightarrow> getPointAt_at len p u ank = Inr Null"
  by (simp add: getPointAt_at_def)

lemma getPointAt_at_Some:
  assumes "find_segment (lengths p) 0 0 (len * min (max u 0) 1) = Some (i, sm, l)"
  shows "getPointAt_at len p u ank =
    (case enclosing (closed p) (int i) (int (length (vertices p))) of
       Inl e \<Rightarrow> Inl e
     | Inr (ia, ib) \<Rightarrow>
        (case getAt_opt (vertices p) ia of
           None \<Rightarrow> Inr (Other (getAt_opt (vertices p) ib))
         | Some a \<Rightarrow>
            (case getAt_opt (vertices p) ib of
               None \<Rightarrow> Inr (Other (Some a))
             | Some b \<Rightarrow>
                 Inr (Populated (populate (if l \<noteq> 0 then (len * min (max u 0) 1 - sm) / l else 0) a b ank)))))"
  unfolding getPointAt_at_def Let_def assms local_t_eq
  by (simp split: sum.splits prod.splits)

lemma enclosing_Inl:
  "enclosing cl (int i) (int n) = Inl e \<longleftrightarrow> e = Diverges \<and> cl \<and> i = 0 \<and> n = 0"
  by (auto simp: enclosing_def mod_js_def split: if_splits)

lemma getPointAt_at_Inl:
  "getPointAt_at len p u ank = Inl e \<Longrightarrow> e = Diverges \<and> closed p \<and> vertices p = []"
proof (cases "find_segment (lengths p) 0 0 (len * min (max u 0) 1)")
  case None
  then show "getPointAt_at len p u ank = Inl e \<Longrightarrow> ?thesis" by (simp add: getPointAt_at_None)
next
  case (Some r)
  obtain i sm l where r: "r = (i, sm, l)" by (cases r)
  assume a: "getPointAt_at len p u ank = Inl e"
  have "enclosing (closed p) (int i) (int (length (vertices p))) = Inl e"
    using a unfolding getPointAt_at_Some [OF Some [unfolded r]]
    by (simp split: sum.splits prod.splits option.splits)
  then show ?thesis by (simp add: enclosing_Inl)
qed

lemma getPointAt_at_Null:
  "getPointAt_at len p u ank = Inr Null \<longleftrightarrow> find_segment (lengths p) 0 0 (len * min (max u 0) 1) = None"
proof (cases "find_segment (lengths p) 0 0 (len * min (max u 0) 1)")
  case None
  then show ?thesis by (simp add: getPointAt_at_None)
next
  case (Some r)
  obtain i sm l where r: "r = (i, sm, l)" by (cases r)
  show ?thesis
    unfolding getPointAt_at_Some [OF Some [unfolded r]] using Some
    by (simp split: sum.splits prod.splits option.splits)
qed


lemma defined_at_Inl: "defined_at xs i = Inl e \<Longrightarrow> e = TypeError"
  by (simp add: defined_at_def split: option.splits)

lemma t_of_Inl: "t_of v = Inl e \<Longrightarrow> e = NotFinite"
  by (simp add: t_of_def split: option.splits)

lemma copy_and_sample_Inl: "copy_and_sample p ancs i u = Inl e \<Longrightarrow> e \<noteq> DivisionByZero"
  unfolding copy_and_sample_def Let_def
  by (auto split: sum.splits point_result.splits dest: defined_at_Inl getPointAt_at_Inl)

lemma update_step_Inl: "update_step p bg en lB uB i s = Inl e \<Longrightarrow> e \<noteq> DivisionByZero"
  unfolding update_step_def Let_def
  by (auto split: sum.splits option.splits if_splits
      dest: defined_at_Inl t_of_Inl copy_and_sample_Inl)

lemma update_loop_Inl: "update_loop p bg en lB uB k i s = Inl e \<Longrightarrow> e \<noteq> DivisionByZero"
  by (induction k arbitrary: i s) (auto split: sum.splits dest: update_step_Inl)

lemma prepend_trimmed_Inl: "prepend_trimmed p bg lB s = Inl e \<Longrightarrow> e \<noteq> DivisionByZero"
  unfolding prepend_trimmed_def Let_def
  by (auto split: sum.splits option.splits if_splits dest: t_of_Inl copy_and_sample_Inl)

lemma update_Inl: "update env p = Inl e \<Longrightarrow> e \<noteq> DivisionByZero"
  unfolding update_def Let_def Shape_update_def
  by (auto simp: updateLength_silent_eq split: sum.splits if_splits
      dest: update_loop_Inl prepend_trimmed_Inl)

lemma get_length_Inl: "get_length env p = Inl e \<Longrightarrow> e \<noteq> DivisionByZero"
  unfolding get_length_def updateLength_def
  by (auto simp: updateLength_silent_eq split: sum.splits if_splits dest: update_Inl)

lemma get_length_val: "get_length env p = Inr (len, p1) \<Longrightarrow> len = length_val p1"
  unfolding get_length_def by (auto split: sum.splits if_splits)

lemma get_length_clean: "\<not> flags p Length \<Longrightarrow> get_length env p = Inr (length_val p, p)"
  by (simp add: get_length_def)

lemma getPointAt_Inr:
  "getPointAt env p u ank = Inr (r, p1) \<longleftrightarrow>
     get_length env p = Inr (length_val p1, p1) \<and> getPointAt_at (length_val p1) p1 u ank = Inr r"
  unfolding getPointAt_def
  by (auto split: sum.splits prod.splits dest: get_length_val)



lemma find_segment_index:
  "find_segment ls i sm target = Some (j, s, l) \<Longrightarrow> i \<le> j \<and> j < i + length ls"
  by (induction ls i sm target rule: find_segment.induct) (auto split: if_splits)




lemma shrunk_clean: "\<not> flags shrunk_path Length"
  by (simp add: shrunk_path_def measured_345_def assign_vertices_def)

lemma shrunk_fields:
  "lengths shrunk_path = [0, 3, 4]" "length_val shrunk_path = 7"
  "vertices shrunk_path = [new_Anchor 0 0, line_to 3 0]" "\<not> closed shrunk_path"
  by (simp_all add: shrunk_path_def measured_345_def assign_vertices_def open_345_plotted_def
      open_345_def new_Path_def)

lemma shrunk_find: "find_segment (lengths shrunk_path) 0 0 (length_val shrunk_path * min (max 1 0) 1) = Some (2, 3, 4)"
  by (simp add: shrunk_fields)

text \<open>
  C7, as stated, fails: on \<open>shrunk_path\<close>, whose table is longer than its vertex
  collection, \<open>getPointAt(1, anchor)\<close> finds an enclosing segment, at table index \<open>2\<close>,
  and yet does not populate the given anchor: the lookup of vertex \<open>2\<close> is \<open>undefined\<close>
  and the other enclosing vertex is returned.
\<close>

theorem getPointAt_sentinel_counterexample:
  "find_segment (lengths shrunk_path) 0 0 (length_val shrunk_path * min (max 1 0) 1) = Some (2, 3, 4)
   \<and> getPointAt straight_utils shrunk_path 1 (new_Anchor 0 0)
       = Inr (Other (Some (line_to 3 0)), shrunk_path)"
proof -
  have "getPointAt_at (length_val shrunk_path) shrunk_path 1 (new_Anchor 0 0) = Inr (Other (Some (line_to 3 0)))"
    unfolding getPointAt_at_Some [OF shrunk_find]
    by (simp add: shrunk_fields enclosing_def getAt_opt_def getAt_def)
  then show ?thesis
    using shrunk_find by (simp add: getPointAt_def get_length_clean [OF shrunk_clean])
qed


lemma enclosing_open:
  "enclosing False (int i) (int n) = Inr (Some (int i), Some (min (max (int i - 1) 0) (int n - 1)))"
  by (simp add: enclosing_def)

lemma enclosing_closed_0:
  "0 < n \<Longrightarrow> enclosing True 0 (int n) = Inr (Some (int (n - 1)), Some 0)"
  by (simp add: enclosing_def mod_js_def of_nat_diff zmod_minus1)

lemma enclosing_closed_Suc:
  "0 < n \<Longrightarrow> enclosing True (int (Suc k)) (int n) = Inr (Some (int (Suc k mod n)), Some (int (k mod n)))"
  by (simp add: enclosing_def mod_js_def zmod_int)

lemma enclosing_closed_empty:
  "0 < i \<Longrightarrow> enclosing True (int i) 0 = Inr (None, None)"
  by (simp add: enclosing_def mod_js_def)

text \<open>
  What \<open>getPointAt\<close> returns when the walk over the table has found segment \<open>i\<close>.
\<close>

lemma getPointAt_at_found:
  assumes f: "find_segment (lengths p) 0 0 (len * min (max u 0) 1) = Some (i, sm, l)"
  shows "vertices p = [] \<Longrightarrow> \<not> (closed p \<and> i = 0) \<Longrightarrow> getPointAt_at len p u ank = Inr (Other None)"
    and "vertices p \<noteq> [] \<Longrightarrow> \<not> closed p \<Longrightarrow> length (vertices p) \<le> i
          \<Longrightarrow> getPointAt_at len p u ank = Inr (Other (Some (last (vertices p))))"
    and "vertices p \<noteq> [] \<Longrightarrow> closed p \<or> i < length (vertices p)
          \<Longrightarrow> getPointAt_at len p u ank =
             Inr (Populated (populate (if l \<noteq> 0 then (len * min (max u 0) 1 - sm) / l else 0)
               (vertices p ! (if closed p then (if i = 0 then length (vertices p) - 1
                                               else i mod length (vertices p)) else i))
               (vertices p ! (if closed p then (if i = 0 then 0 else (i - 1) mod length (vertices p))
                              else i - 1))
               ank))"
proof -
  note g = getPointAt_at_Some [OF f]
  show "getPointAt_at len p u ank = Inr (Other None)"
    if "vertices p = []" "\<not> (closed p \<and> i = 0)"
  proof (cases "closed p")
    case True
    with that have "0 < i" by simp
    then show ?thesis
      unfolding g using True that(1) enclosing_closed_empty [of i]
      by (simp add: getAt_opt_def)
  next
    case False
    then show ?thesis
      unfolding g using that(1) enclosing_open [of i 0]
      by (simp add: getAt_opt_def getAt_def)
  qed
  show "getPointAt_at len p u ank = Inr (Other (Some (last (vertices p))))"
    if "vertices p \<noteq> []" "\<not> closed p" "length (vertices p) \<le> i"
  proof -
    have n: "0 < length (vertices p)" using that(1) by simp
    have "min (max (int i - 1) 0) (int (length (vertices p)) - 1) = int (length (vertices p) - 1)"
      using that(3) n by linarith
    then have e: "enclosing (closed p) (int i) (int (length (vertices p)))
        = Inr (Some (int i), Some (int (length (vertices p) - Suc 0)))"
      using that(2) by (simp add: enclosing_open del: of_nat_diff)
    have a: "getAt (vertices p) (int i) = None" using that(3) by (simp add: getAt_def)
    have b: "getAt (vertices p) (int (length (vertices p) - Suc 0)) = Some (last (vertices p))"
      using n that(1) by (simp add: getAt_def last_conv_nth del: of_nat_diff)
    show ?thesis
      unfolding g e by (simp add: getAt_opt_def a b del: of_nat_diff)
  qed
  show "getPointAt_at len p u ank =
      Inr (Populated (populate (if l \<noteq> 0 then (len * min (max u 0) 1 - sm) / l else 0)
        (vertices p ! (if closed p then (if i = 0 then length (vertices p) - 1
                                        else i mod length (vertices p)) else i))
        (vertices p ! (if closed p then (if i = 0 then 0 else (i - 1) mod length (vertices p))
                       else i - 1))
        ank))"
    if "vertices p \<noteq> []" "closed p \<or> i < length (vertices p)"
  proof -
    have n: "0 < length (vertices p)" using that(1) by simp
    show ?thesis
    proof (cases "closed p")
      case True
      show ?thesis
      proof (cases i)
        case 0
        have e: "enclosing (closed p) (int i) (int (length (vertices p)))
            = Inr (Some (int (length (vertices p) - Suc 0)), Some 0)"
          using True 0 enclosing_closed_0 [OF n] by simp
        have a: "getAt (vertices p) (int (length (vertices p) - Suc 0))
            = Some (vertices p ! (length (vertices p) - 1))"
          using n by (simp add: getAt_def del: of_nat_diff)
        have b: "getAt (vertices p) 0 = Some (vertices p ! 0)" using n by (simp add: getAt_def)
        show ?thesis
          unfolding g e using True 0 by (simp add: getAt_opt_def a b del: of_nat_diff)
      next
        case (Suc k)
        have e: "enclosing (closed p) (int i) (int (length (vertices p)))
            = Inr (Some (int (i mod length (vertices p))), Some (int ((i - 1) mod length (vertices p))))"
          using True Suc enclosing_closed_Suc [OF n, of k] by simp
        have a: "getAt (vertices p) (int (j mod length (vertices p)))
            = Some (vertices p ! (j mod length (vertices p)))" for j
          using n by (simp add: getAt_def del: of_nat_mod)
        show ?thesis
          unfolding g e using True Suc by (simp add: getAt_opt_def a del: of_nat_mod)
      qed
    next
      case False
      with that(2) have i: "i < length (vertices p)" by simp
      have "min (max (int i - 1) 0) (int (length (vertices p)) - 1) = int (i - 1)"
        using i by linarith
      then have e: "enclosing (closed p) (int i) (int (length (vertices p)))
          = Inr (Some (int i), Some (int (i - Suc 0)))"
        using False by (simp add: enclosing_open del: of_nat_diff)
      have a: "getAt (vertices p) (int i) = Some (vertices p ! i)" using i by (simp add: getAt_def)
      have b: "getAt (vertices p) (int (i - Suc 0)) = Some (vertices p ! (i - 1))"
        using i by (simp add: getAt_def del: of_nat_diff)
      show ?thesis
        unfolding g e using False by (simp add: getAt_opt_def a b del: of_nat_diff)
    qed
  qed
qed

lemma populate_t: "t (populate lt a b ank) = Some lt"
  by (simp add: populate_def Let_def)

lemma populate_origin:
  "origin (populate lt a b ank) =
     vec_of (getComponentOnCubicBezier lt (ax b) (seg_x2 b) (seg_x3 a) (ax a))
            (getComponentOnCubicBezier lt (ay b) (seg_y2 b) (seg_y3 a) (ay a))"
  by (simp add: populate_def Let_def)

text \<open>
  C7, amended. Once the read of \<open>this.length\<close> has succeeded, \<open>getPointAt\<close> returns
  \<open>null\<close> exactly when the walk over the table finds no enclosing segment (an empty
  table, or entries that never reach the target). When segment \<open>i\<close> is found on a path
  with vertices that is closed or has \<open>i < vertices.length\<close>, as always when the table is
  not longer than the vertex collection, it populates the given anchor and returns it:
  the local parameter is \<open>0\<close> on a segment of length zero and the rest of the target
  divided by the segment's length otherwise; the anchor's \<open>t\<close> is that parameter, its
  origin the point of the cubic bezier from the enclosing vertex before to the one after
  at that parameter, and its handles are those of the curve split there. When
  segment \<open>i\<close> is found on an open path with vertices and \<open>i \<ge> vertices.length\<close> (a
  table longer than the collection), it returns the last vertex and leaves the given
  anchor as it is. On a path without vertices (open, or closed with \<open>i > 0\<close>) it returns
  \<open>undefined\<close>.
\<close>

theorem getPointAt_sentinel_amended:
  assumes "get_length env p = Inr (len, p1)"
    and "target = len * min (max u 0) 1"
    and "n = length (vertices p1)"
  shows "(getPointAt env p u ank = Inr (Null, p1) \<longleftrightarrow> find_segment (lengths p1) 0 0 target = None)
     \<and> (\<forall>i sm l. find_segment (lengths p1) 0 0 target = Some (i, sm, l) \<longrightarrow>
          (0 < n \<longrightarrow> closed p1 \<or> i < n \<longrightarrow>
             (\<exists>v a b lt. getPointAt env p u ank = Inr (Populated v, p1)
                \<and> a = vertices p1 ! (if closed p1 then (if i = 0 then n - 1 else i mod n) else i)
                \<and> b = vertices p1 ! (if closed p1 then (if i = 0 then 0 else (i - 1) mod n) else i - 1)
                \<and> lt = (if l \<noteq> 0 then (target - sm) / l else 0)
                \<and> v = populate lt a b ank \<and> t v = Some lt
                \<and> origin v =
                     vec_of (getComponentOnCubicBezier lt (ax b) (seg_x2 b) (seg_x3 a) (ax a))
                            (getComponentOnCubicBezier lt (ay b) (seg_y2 b) (seg_y3 a) (ay a))))
        \<and> (0 < n \<longrightarrow> \<not> closed p1 \<longrightarrow> n \<le> i
             \<longrightarrow> getPointAt env p u ank = Inr (Other (Some (last (vertices p1))), p1))
        \<and> (n = 0 \<longrightarrow> \<not> (closed p1 \<and> i = 0)
             \<longrightarrow> getPointAt env p u ank = Inr (Other None, p1)))
     \<and> (\<forall>i sm l. length (lengths p1) \<le> n
          \<longrightarrow> find_segment (lengths p1) 0 0 target = Some (i, sm, l) \<longrightarrow> 0 < n \<and> i < n)"
proof -
  have len: "len = length_val p1" using assms(1) by (rule get_length_val)
  have g: "get_length env p = Inr (length_val p1, p1)" using assms(1) len by simp
  have r: "getPointAt env p u ank = Inr (x, p1) \<longleftrightarrow> getPointAt_at len p1 u ank = Inr x" for x
    by (simp add: getPointAt_Inr g len)
  have a: "getPointAt env p u ank = Inr (Null, p1) \<longleftrightarrow> find_segment (lengths p1) 0 0 target = None"
    unfolding r assms(2) by (rule getPointAt_at_Null)
  have b: "(0 < n \<longrightarrow> closed p1 \<or> i < n \<longrightarrow>
             (\<exists>v a b lt. getPointAt env p u ank = Inr (Populated v, p1)
                \<and> a = vertices p1 ! (if closed p1 then (if i = 0 then n - 1 else i mod n) else i)
                \<and> b = vertices p1 ! (if closed p1 then (if i = 0 then 0 else (i - 1) mod n) else i - 1)
                \<and> lt = (if l \<noteq> 0 then (target - sm) / l else 0)
                \<and> v = populate lt a b ank \<and> t v = Some lt
                \<and> origin v =
                     vec_of (getComponentOnCubicBezier lt (ax b) (seg_x2 b) (seg_x3 a) (ax a))
                            (getComponentOnCubicBezier lt (ay b) (seg_y2 b) (seg_y3 a) (ay a))))
        \<and> (0 < n \<longrightarrow> \<not> closed p1 \<longrightarrow> n \<le> i
             \<longrightarrow> getPointAt env p u ank = Inr (Other (Some (last (vertices p1))), p1))
        \<and> (n = 0 \<longrightarrow> \<not> (closed p1 \<and> i = 0)
             \<longrightarrow> getPointAt env p u ank = Inr (Other None, p1))"
    if f: "find_segment (lengths p1) 0 0 target = Some (i, sm, l)" for i sm l
  proof -
    note c = getPointAt_at_found [OF f [unfolded assms(2)], of ank]
    have 1: "getPointAt env p u ank = Inr (Other None, p1)" if "n = 0" "\<not> (closed p1 \<and> i = 0)"
      unfolding r using c(1) that assms(3) by simp
    have 2: "getPointAt env p u ank = Inr (Other (Some (last (vertices p1))), p1)"
      if "0 < n" "\<not> closed p1" "n \<le> i"
      unfolding r using c(2) that assms(3) by simp
    have 3: "getPointAt env p u ank =
        Inr (Populated (populate (if l \<noteq> 0 then (target - sm) / l else 0)
               (vertices p1 ! (if closed p1 then (if i = 0 then n - 1 else i mod n) else i))
               (vertices p1 ! (if closed p1 then (if i = 0 then 0 else (i - 1) mod n) else i - 1))
               ank), p1)"
      if "0 < n" "closed p1 \<or> i < n"
      unfolding r using c(3) that unfolding assms(2,3) by simp
    show ?thesis using 1 2 3 by (simp add: populate_t populate_origin)
  qed
  have d: "0 < n \<and> i < n"
    if le: "length (lengths p1) \<le> n" and f: "find_segment (lengths p1) 0 0 target = Some (i, sm, l)"
    for i sm l
    using find_segment_index [OF f] le by simp
  show ?thesis using a b d by blast
qed

lemma measured_fields:
  "lengths measured_345 = [0, 3, 4]" "length_val measured_345 = 7"
  "vertices measured_345 = [new_Anchor 0 0, line_to 3 0, line_to 3 4]"
  "\<not> closed measured_345" "\<not> flags measured_345 Length"
  by (simp_all add: measured_345_def assign_vertices_def open_345_plotted_def open_345_def
      new_Path_def)

lemma emptied_fields:
  "lengths emptied_path = [0, 3, 4]" "length_val emptied_path = 7"
  "vertices emptied_path = []" "\<not> closed emptied_path" "\<not> flags emptied_path Length"
  by (simp_all add: emptied_path_def measured_345_def assign_vertices_def open_345_plotted_def
      open_345_def new_Path_def)

theorem getPointAt_sentinel_amended_witness:
  "get_length straight_utils measured_345 = Inr (7, measured_345)
   \<and> find_segment (lengths measured_345) 0 0 (7 * min (max (1 / 2) 0) 1) = Some (2, 3, 4)
   \<and> 2 < length (vertices measured_345)
   \<and> (\<exists>v. getPointAt straight_utils measured_345 (1 / 2) (new_Anchor 0 0)
             = Inr (Populated v, measured_345)
         \<and> t v = Some (1 / 8) \<and> origin v = vec_of 3 (11 / 64))
   \<and> get_length straight_utils shrunk_path = Inr (7, shrunk_path)
   \<and> find_segment (lengths shrunk_path) 0 0 (7 * min (max 1 0) 1) = Some (2, 3, 4)
   \<and> \<not> closed shrunk_path \<and> length (vertices shrunk_path) = 2
   \<and> getPointAt straight_utils shrunk_path 1 (new_Anchor 0 0)
        = Inr (Other (Some (line_to 3 0)), shrunk_path)
   \<and> get_length straight_utils emptied_path = Inr (7, emptied_path)
   \<and> find_segment (lengths emptied_path) 0 0 (7 * min (max 1 0) 1) = Some (2, 3, 4)
   \<and> length (vertices emptied_path) = 0
   \<and> getPointAt straight_utils emptied_path 1 (new_Anchor 0 0) = Inr (Other None, emptied_path)"
proof -
  have g1: "get_length straight_utils measured_345 = Inr (7, measured_345)"
    using get_length_clean [of measured_345 straight_utils] by (simp add: measured_fields)
  have f1: "find_segment (lengths measured_345) 0 0 (7 * min (max (1 / 2) 0) 1) = Some (2, 3, 4)"
    by (simp add: measured_fields)
  have n1: "2 < length (vertices measured_345)" by (simp add: measured_fields)
  from getPointAt_sentinel_amended [OF g1 refl refl, of "1 / 2" "new_Anchor 0 0"] f1 n1
  obtain v a b lt where r: "getPointAt straight_utils measured_345 (1 / 2) (new_Anchor 0 0)
        = Inr (Populated v, measured_345)"
    and ab: "a = vertices measured_345 ! 2" "b = vertices measured_345 ! (2 - 1)"
      "lt = (7 * min (max (1 / 2) 0) 1 - 3) / 4"
    and tv: "t v = Some lt"
    and ov: "origin v =
         vec_of (getComponentOnCubicBezier lt (ax b) (seg_x2 b) (seg_x3 a) (ax a))
                (getComponentOnCubicBezier lt (ay b) (seg_y2 b) (seg_y3 a) (ay a))"
    by (auto simp: measured_fields)
  have lt: "lt = 1 / 8" using ab(3) by simp
  have a: "a = line_to 3 4" and b: "b = line_to 3 0" using ab(1,2) by (simp_all add: measured_fields)
  have p1: "t v = Some (1 / 8) \<and> origin v = vec_of 3 (11 / 64)"
    unfolding tv ov lt a b
    by (simp add: getComponentOnCubicBezier_def line_to_def new_Anchor_def
        seg_x2_def seg_y2_def seg_x3_def seg_y3_def vec_of_def Let_def)
  have g2: "get_length straight_utils shrunk_path = Inr (7, shrunk_path)"
    using get_length_clean [OF shrunk_clean, of straight_utils] by (simp add: shrunk_fields)
  have f2: "find_segment (lengths shrunk_path) 0 0 (7 * min (max 1 0) 1) = Some (2, 3, 4)"
    by (simp add: shrunk_fields)
  from getPointAt_sentinel_amended [OF g2 refl refl, of 1 "new_Anchor 0 0"] f2
  have p2: "getPointAt straight_utils shrunk_path 1 (new_Anchor 0 0)
        = Inr (Other (Some (line_to 3 0)), shrunk_path)"
    by (simp add: shrunk_fields)
  have g3: "get_length straight_utils emptied_path = Inr (7, emptied_path)"
    using get_length_clean [of emptied_path straight_utils] by (simp add: emptied_fields)
  have f3: "find_segment (lengths emptied_path) 0 0 (7 * min (max 1 0) 1) = Some (2, 3, 4)"
    by (simp add: emptied_fields)
  from getPointAt_sentinel_amended [OF g3 refl refl, of 1 "new_Anchor 0 0"] f3
  have p3: "getPointAt straight_utils emptied_path 1 (new_Anchor 0 0) = Inr (Other None, emptied_path)"
    by (simp add: emptied_fields)
  show ?thesis
    using g1 f1 n1 r p1 g2 f2 p2 g3 f3 p3 by (simp add: shrunk_fields emptied_fields)
qed

text \<open>
  C8. \<open>getPointAt\<close> never divides by zero, on any path and for any \<open>t\<close>: when the
  enclosing segment has length zero, the local parameter is set to \<open>0\<close> and that is the
  \<open>t\<close> written to the populated anchor.
\<close>

theorem getPointAt_zero_segment:
  "getPointAt env p u ank \<noteq> Inl DivisionByZero
   \<and> (getPointAt env p u ank = Inr (Populated v, p1)
        \<longrightarrow> find_segment (lengths p1) 0 0 (length_val p1 * min (max u 0) 1) = Some (i, sm, 0)
        \<longrightarrow> t v = Some 0)"
proof -
  have a: "getPointAt env p u ank \<noteq> Inl DivisionByZero"
    unfolding getPointAt_def
    by (auto split: sum.splits prod.splits dest: get_length_Inl getPointAt_at_Inl)
  have b: "t v = Some 0"
    if r: "getPointAt env p u ank = Inr (Populated v, p1)"
      and f: "find_segment (lengths p1) 0 0 (length_val p1 * min (max u 0) 1) = Some (i, sm, 0)"
  proof -
    have "getPointAt_at (length_val p1) p1 u ank = Inr (Populated v)"
      using r by (simp add: getPointAt_Inr)
    then show ?thesis
      unfolding getPointAt_at_Some [OF f]
      by (auto simp: populate_def Let_def split: sum.splits prod.splits option.splits if_splits)
  qed
  show ?thesis using a b by blast
qed

lemma dot_fields:
  "lengths dot_path = [0]" "length_val dot_path = 0"
  "vertices dot_path = [new_Anchor 1 2]" "\<not> closed dot_path" "\<not> flags dot_path Length"
  by (simp_all add: dot_path_def new_Path_def)

theorem getPointAt_zero_segment_witness:
  "getPointAt straight_utils dot_path (1 / 2) (new_Anchor 0 0)
      = Inr (Populated (populate 0 (new_Anchor 1 2) (new_Anchor 1 2) (new_Anchor 0 0)), dot_path)
   \<and> find_segment (lengths dot_path) 0 0 (length_val dot_path * min (max (1 / 2) 0) 1)
      = Some (0, 0, 0)
   \<and> t (populate 0 (new_Anchor 1 2) (new_Anchor 1 2) (new_Anchor 0 0)) = Some 0"
proof -
  have f: "find_segment (lengths dot_path) 0 0 (length_val dot_path * min (max (1 / 2) 0) 1)
      = Some (0, 0, 0)"
    by (simp add: dot_fields)
  have "getPointAt_at (length_val dot_path) dot_path (1 / 2) (new_Anchor 0 0)
      = Inr (Populated (populate 0 (new_Anchor 1 2) (new_Anchor 1 2) (new_Anchor 0 0)))"
    unfolding getPointAt_at_Some [OF f]
    by (simp add: dot_fields enclosing_def getAt_opt_def getAt_def)
  then have r: "getPointAt straight_utils dot_path (1 / 2) (new_Anchor 0 0)
      = Inr (Populated (populate 0 (new_Anchor 1 2) (new_Anchor 1 2) (new_Anchor 0 0)), dot_path)"
    by (simp add: getPointAt_Inr get_length_clean dot_fields)
  show ?thesis
    using getPointAt_zero_segment [of straight_utils dot_path "1 / 2" "new_Anchor 0 0"
        "populate 0 (new_Anchor 1 2) (new_Anchor 1 2) (new_Anchor 0 0)" dot_path 0 0] r f
    by simp
qed

section \<open>Properties of trim and rebuild\<close>

lemmas trim_eval =
  getAt_def Let_def array_set_def vec_of_def getIdByLength_def contains_path_def
  update_step_def copy_and_sample_def defined_at_def anchor_copy_def getPointAt_at_def
  enclosing_def local_t_def checked_div_def populate_def getComponentOnCubicBezier_def
  lerp_def t_of_def clear_right_def clear_left_def vec_lerp_def prepend_trimmed_def
  getAt_opt_def mod_js_def seg_x2_def seg_y2_def seg_x3_def seg_y3_def

lemma length_3_0: "getCurveLength crv (line_to 3 0) (new_Anchor 0 0) = 3"
  using getCurveLength_points
    [OF uncurved_line_to uncurved_new_Anchor origin_line_to origin_new_Anchor, of crv 3 0 0 0]
  by (simp add: sqrt_9)

lemma length_3_4: "getCurveLength crv (line_to 3 4) (line_to 3 0) = 4"
  using getCurveLength_points
    [OF uncurved_line_to uncurved_line_to origin_line_to origin_line_to, of crv 3 4 3 0]
  by (simp add: sqrt_16)

lemma command_line_to: "command (line_to x y) \<noteq> Move"
  by (simp add: line_to_def)

lemma plot_trimmed_345:
  "plot env trimmed_345 = trimmed_345\<lparr>vertices := [new_Anchor 0 0, line_to 3 0, line_to 3 4]\<rparr>"
  by (simp add: plot_def trimmed_345_def set_ending_def set_beginning_def open_345_def
      new_Path_def line_to_def new_Anchor_def)

text \<open>The first \<open>update()\<close> of the trimmed example, evaluated.\<close>

lemma update_trimmed_345:
  "update env trimmed_345 =
     Inr (trimmed_345
       \<lparr>vertices := [new_Anchor 0 0, line_to 3 0, line_to 3 4],
        lengths := [0, 3, 4], length_val := 7,
        flags := (flags trimmed_345)(Length := False),
        anchors := [new_Anchor 0 0, line_to 3 0,
          (line_to 3 (11 / 64))\<lparr>controls_left := vec_of 0 (- (7 / 64)), t := Some (1 / 8)\<rparr>],
        zzz_vertices := [0, 1, 2], vertices_subject := 1\<rparr>)"
  apply (simp add: update_def plot_trimmed_345)
  apply (simp add: trimmed_345_def set_ending_def set_beginning_def open_345_def new_Path_def
      updateLength_silent_eq length_table_def length_3_0 length_3_4 command_line_to
      Shape_update_def)
  apply (simp add: trim_eval line_to_def new_Anchor_def Shape_update_def)
  done

text \<open>The render buffer of the trimmed example after its first \<open>update()\<close>.\<close>

lemma render_trimmed_345:
  "update env trimmed_345 = Inr q \<Longrightarrow>
   render_buffer q = [new_Anchor 0 0, line_to 3 0,
     (line_to 3 (11 / 64))\<lparr>controls_left := vec_of 0 (- (7 / 64)), t := Some (1 / 8)\<rparr>]"
  unfolding update_trimmed_345 by (auto simp: render_buffer_def)

lemma update_trimmed_345_succeeds: "\<exists>q. update env trimmed_345 = Inr q"
  unfolding update_trimmed_345 by blast

text \<open>
  C1, as stated, fails: on the open path \<open>(0,0), (3,0), (3,4)\<close> with \<open>beginning = 0\<close> and
  \<open>ending = 0.5\<close> the last point of the render buffer after \<open>update()\<close> is
  \<open>(3, 11/64)\<close>, not \<open>(3, 1.5)\<close>.
\<close>

theorem trimming_boundary_counterexample:
  "\<exists>q. update straight_utils trimmed_345 = Inr q
     \<and> origin (last (render_buffer q)) = vec_of 3 (11 / 64)
     \<and> origin (last (render_buffer q)) \<noteq> vec_of 3 (3 / 2)"
proof -
  obtain q where q: "update straight_utils trimmed_345 = Inr q"
    using update_trimmed_345_succeeds by blast
  show ?thesis
    using q render_trimmed_345 [OF q] by (simp add: line_to_def new_Anchor_def vec_of_def)
qed

text \<open>
  C1, amended. On that path \<open>update()\<close> succeeds and the render buffer has three points,
  \<open>(0,0)\<close>, \<open>(3,0)\<close> and a last point on the second segment: the point that
  \<open>getPointAt(0.5)\<close> samples, which is the cubic bezier of the second segment (handles on
  its endpoints) at the local parameter \<open>t = 0.5 / 4 = 0.125\<close>, that is \<open>(3, 11/64)\<close>.
\<close>

theorem trimming_boundary_amended:
  "\<exists>q. update env trimmed_345 = Inr q
     \<and> map origin (render_buffer q) = [vec_of 0 0, vec_of 3 0, vec_of 3 (11 / 64)]
     \<and> t (last (render_buffer q)) = Some (1 / 8)
     \<and> origin (last (render_buffer q))
         = vec_of (getComponentOnCubicBezier (1 / 8) 3 3 3 3)
             (getComponentOnCubicBezier (1 / 8) 0 0 4 4)"
proof -
  obtain q where q: "update env trimmed_345 = Inr q"
    using update_trimmed_345_succeeds by blast
  have b: "getComponentOnCubicBezier (1 / 8) 3 3 3 3 = 3"
    "getComponentOnCubicBezier (1 / 8) 0 0 4 4 = 11 / 64"
    by (simp_all add: getComponentOnCubicBezier_def)
  show ?thesis
    using q render_trimmed_345 [OF q] by (simp add: line_to_def new_Anchor_def b)
qed

theorem trimming_boundary_amended_witness:
  "\<exists>q. update straight_utils trimmed_345 = Inr q
     \<and> map origin (render_buffer q) = [vec_of 0 0, vec_of 3 0, vec_of 3 (11 / 64)]
     \<and> t (last (render_buffer q)) = Some (1 / 8)
     \<and> origin (last (render_buffer q))
         = vec_of (getComponentOnCubicBezier (1 / 8) 3 3 3 3)
             (getComponentOnCubicBezier (1 / 8) 0 0 4 4)"
  by (rule trimming_boundary_amended [of straight_utils])

section \<open>The table after a recomputation\<close>

text \<open>
  \<open>update()\<close> keeps \<open>closed\<close>, and it leaves the table as it is or overwrites its first
  \<open>vertices.length\<close> entries.
\<close>

lemma update_table:
  assumes "update env p = Inr p1"
  shows "closed p1 = closed p"
    and "lengths p1 = lengths p
       \<or> lengths p1 = length_table (curveLength env) (vertices p1) @ drop (length (vertices p1)) (lengths p)"
  using assms unfolding update_def Let_def Shape_update_def
  by (auto simp: updateLength_silent_eq plot_def split: sum.splits if_splits)

text \<open>
  \<open>#updateLength(limit, silent)\<close> returns exactly when the \<open>update()\<close> of a call that is not
  silent does; the loop over the vertices never fails.
\<close>

lemma updateLength_Inr:
  "updateLength env silent p = Inr q \<longleftrightarrow>
     (\<exists>p1. (if silent then Inr p else update env p) = Inr p1
        \<and> q = p1\<lparr>lengths := length_table (curveLength env) (vertices p1)
                            @ drop (length (vertices p1)) (lengths p1),
                 length_val := sum_list (length_table (curveLength env) (vertices p1)),
                 flags := (flags p1)(Length := False)\<rparr>)"
  unfolding updateLength_def by (auto simp: updateLength_silent_eq split: sum.splits)

lemma updateLength_table:
  assumes "updateLength env silent p = Inr q"
  shows "lengths q = length_table (curveLength env) (vertices q) @ drop (length (vertices q)) (lengths p)"
    and "length_val q = sum_list (length_table (curveLength env) (vertices q))"
proof -
  from assms obtain p1 where p1: "(if silent then Inr p else update env p) = Inr p1"
    and q: "q = p1\<lparr>lengths := length_table (curveLength env) (vertices p1)
                            @ drop (length (vertices p1)) (lengths p1),
                 length_val := sum_list (length_table (curveLength env) (vertices p1)),
                 flags := (flags p1)(Length := False)\<rparr>"
    unfolding updateLength_Inr by blast
  have "drop (length (vertices p1)) (lengths p1) = drop (length (vertices p1)) (lengths p)"
  proof (cases silent)
    case True
    with p1 show ?thesis by simp
  next
    case False
    with p1 have "update env p = Inr p1" by simp
    from update_table(2) [OF this] show ?thesis by auto
  qed
  then show "lengths q = length_table (curveLength env) (vertices q) @ drop (length (vertices q)) (lengths p)"
    and "length_val q = sum_list (length_table (curveLength env) (vertices q))"
    unfolding q by simp_all
qed

lemma updateLength_True: "updateLength env True p = updateLength_silent (curveLength env) p"
  by (simp add: updateLength_def)

lemma table_345:
  assumes "origin a0 = vec_of 0 0" and "origin a1 = vec_of 3 0" and "origin a2 = vec_of 3 4"
    and "uncurved a0" and "uncurved a1" and "uncurved a2"
    and "command a1 \<noteq> Move" and "command a2 \<noteq> Move"
  shows "length_table crv [a0, a1, a2] = [0, 3, 4]"
proof -
  have g1: "getCurveLength crv a1 a0 = 3"
    using assms by (simp add: getCurveLength_straight vec_of_def sqrt_9)
  have g2: "getCurveLength crv a2 a1 = 4"
    using assms by (simp add: getCurveLength_straight vec_of_def sqrt_16)
  show ?thesis using assms g1 g2 by (simp add: length_table_def)
qed

text \<open>
  C2, as stated, fails: a path with the four vertices \<open>(0,0), (3,0), (3,4), (0,4)\<close> is
  measured and its Collection then replaced by one with exactly the vertices
  \<open>(0,0), (3,0), (3,4)\<close>. After the length recomputation the total is \<open>7\<close>, but the table
  is \<open>[0, 3, 4, 3]\<close>: the fourth entry is left from the first measurement.
\<close>

theorem length_additivity_counterexample:
  "\<exists>p1 q. updateLength straight_utils True open_3450 = Inr p1
     \<and> updateLength straight_utils True
          (assign_vertices [new_Anchor 0 0, line_to 3 0, line_to 3 4] p1) = Inr q
     \<and> vertices q = [new_Anchor 0 0, line_to 3 0, line_to 3 4] \<and> \<not> closed q
     \<and> lengths q = [0, 3, 4, 3] \<and> lengths q \<noteq> [0, 3, 4] \<and> length_val q = 7"
proof -
  have g1: "getCurveLength no_curves (line_to 3 0) (new_Anchor 0 0) = 3"
    using getCurveLength_points
      [OF uncurved_line_to uncurved_new_Anchor origin_line_to origin_new_Anchor,
        of no_curves 3 0 0 0]
    by (simp add: sqrt_9)
  have g2: "getCurveLength no_curves (line_to 3 4) (line_to 3 0) = 4"
    using getCurveLength_points
      [OF uncurved_line_to uncurved_line_to origin_line_to origin_line_to,
        of no_curves 3 4 3 0]
    by (simp add: sqrt_16)
  have g3: "getCurveLength no_curves (line_to 0 4) (line_to 3 4) = 3"
    using getCurveLength_points
      [OF uncurved_line_to uncurved_line_to origin_line_to origin_line_to,
        of no_curves 0 4 3 4]
    by (simp add: sqrt_9)
  have c: "command (line_to x y) \<noteq> Move" for x y
    by (simp add: line_to_def)
  show ?thesis
    by (simp add: updateLength_True updateLength_silent_eq open_3450_def new_Path_def
        assign_vertices_def straight_utils_def length_table_def g1 g2 g3 c)
qed

text \<open>
  C2, amended. Take an open path that has exactly the vertices \<open>(0,0), (3,0), (3,4)\<close>,
  joined by straight segments (the handles lie on the origins and the second and third
  vertex are not moves), when the table is recomputed: at the call for a silent
  recomputation, after the \<open>update()\<close> that comes first for one that is not silent. Then
  the length recomputation succeeds, the total is \<open>7\<close> and the first three entries of
  the table are \<open>[0, 3, 4]\<close>. Entries beyond the third are kept from before; so the table
  is \<open>[0, 3, 4]\<close> exactly when it had at most three entries before, as on a path built
  with these vertices.
\<close>

theorem length_additivity_amended:
  assumes "(if silent then Inr p else update env p) = Inr p1"
    and "vertices p1 = [a0, a1, a2]"
    and "origin a0 = vec_of 0 0" and "origin a1 = vec_of 3 0" and "origin a2 = vec_of 3 4"
    and "uncurved a0" and "uncurved a1" and "uncurved a2"
    and "command a1 \<noteq> Move" and "command a2 \<noteq> Move"
    and "\<not> closed p1"
  shows "\<exists>q. updateLength env silent p = Inr q \<and> vertices q = [a0, a1, a2]
     \<and> length_val q = 7 \<and> take 3 (lengths q) = [0, 3, 4]
     \<and> drop 3 (lengths q) = drop 3 (lengths p)
     \<and> (lengths q = [0, 3, 4] \<longleftrightarrow> length (lengths p) \<le> 3)"
proof -
  define q where "q = p1\<lparr>lengths := length_table (curveLength env) (vertices p1)
                            @ drop (length (vertices p1)) (lengths p1),
                 length_val := sum_list (length_table (curveLength env) (vertices p1)),
                 flags := (flags p1)(Length := False)\<rparr>"
  have u: "updateLength env silent p = Inr q"
    unfolding updateLength_Inr q_def using assms(1) by blast
  have v: "vertices q = [a0, a1, a2]" using assms(2) by (simp add: q_def)
  note tab = table_345 [OF assms(3-10), of "curveLength env"]
  have n3: "length [a0, a1, a2] = 3" by simp
  from updateLength_table [OF u] have L: "lengths q = [0, 3, 4] @ drop 3 (lengths p)"
    and s: "length_val q = 7"
    unfolding v tab n3 by simp_all
  have "take 3 (lengths q) = [0, 3, 4]" "drop 3 (lengths q) = drop 3 (lengths p)"
    "lengths q = [0, 3, 4] \<longleftrightarrow> length (lengths p) \<le> 3"
    unfolding L by simp_all
  with u v s show ?thesis by blast
qed

theorem length_additivity_amended_witness:
  "\<exists>p1 q. update straight_utils trimmed_345 = Inr p1
     \<and> vertices p1 = [new_Anchor 0 0, line_to 3 0, line_to 3 4] \<and> \<not> closed p1
     \<and> length (lengths trimmed_345) \<le> 3
     \<and> updateLength straight_utils False trimmed_345 = Inr q
     \<and> lengths q = [0, 3, 4] \<and> length_val q = 7"
proof -
  obtain p1 where u: "update straight_utils trimmed_345 = Inr p1"
    using update_trimmed_345_succeeds by blast
  have v: "vertices p1 = [new_Anchor 0 0, line_to 3 0, line_to 3 4]" and cl: "\<not> closed p1"
    using u unfolding update_trimmed_345
    by (auto simp: trimmed_345_def set_ending_def set_beginning_def open_345_def new_Path_def)
  have l: "length (lengths trimmed_345) \<le> 3"
    by (simp add: trimmed_345_def set_ending_def set_beginning_def open_345_def new_Path_def)
  have h: "(if False then Inr trimmed_345 else update straight_utils trimmed_345) = Inr p1"
    using u by simp
  have c: "command (line_to 3 0) \<noteq> Move" "command (line_to 3 4) \<noteq> Move"
    by (simp_all add: line_to_def)
  from length_additivity_amended
    [OF h v origin_new_Anchor origin_line_to origin_line_to
      uncurved_new_Anchor uncurved_line_to uncurved_line_to c cl] l
  obtain q where "updateLength straight_utils False trimmed_345 = Inr q"
    "lengths q = [0, 3, 4]" "length_val q = 7"
    by blast
  with u v cl l show ?thesis by blast
qed

text \<open>
  C6, as stated, fails: after the Collection of a path with three table entries has been
  replaced by one with two vertices, the recomputation leaves three entries.
\<close>

theorem lengths_size_counterexample:
  "\<exists>q. updateLength_silent no_curves shrunk_path = Inr q
     \<and> length (lengths q) = 3 \<and> length (vertices q) = 2"
  by (simp add: updateLength_silent_eq shrunk_path_def measured_345_def assign_vertices_def)

text \<open>
  C6, amended. After every successful length recomputation, silent or not, and after
  every read of \<open>length\<close> that recomputes, the table has as many entries as the larger
  of its size before and the number of vertices: the recomputation overwrites the first
  \<open>vertices.length\<close> entries and never shortens the table. So the table has at least
  \<open>vertices.length\<close> entries, and exactly that many when it was not longer before (in
  particular on a path whose vertices were only added to). After vertices have been
  removed, or the Collection replaced by a shorter one, the entries beyond
  \<open>vertices.length\<close> remain as they were.
\<close>

theorem lengths_size_amended:
  assumes "updateLength env silent p = Inr q \<or> (flags p Length \<and> get_length env p = Inr (len, q))"
  shows "length (lengths q) = max (length (lengths p)) (length (vertices q))
     \<and> length (vertices q) \<le> length (lengths q)
     \<and> (length (lengths p) \<le> length (vertices q) \<longrightarrow> length (lengths q) = length (vertices q))
     \<and> drop (length (vertices q)) (lengths q) = drop (length (vertices q)) (lengths p)"
proof -
  from assms obtain sl where u: "updateLength env sl p = Inr q"
    unfolding get_length_def by (auto split: sum.splits if_splits)
  from updateLength_table(1) [OF u] show ?thesis by auto
qed

theorem lengths_size_amended_witness:
  "(\<exists>len q. flags trimmed_345 Length \<and> get_length straight_utils trimmed_345 = Inr (len, q)
       \<and> length (lengths trimmed_345) \<le> length (vertices q)
       \<and> length (lengths q) = length (vertices q))
   \<and> (\<exists>q. updateLength straight_utils True shrunk_path = Inr q
         \<and> length (lengths shrunk_path) = 3 \<and> length (vertices q) = 2
         \<and> length (lengths q) = 3)"
proof -
  have fl: "flags trimmed_345 Length" and l0: "lengths trimmed_345 = []"
    by (simp_all add: trimmed_345_def set_ending_def set_beginning_def open_345_def new_Path_def)
  obtain p1 where u: "update straight_utils trimmed_345 = Inr p1"
    using update_trimmed_345_succeeds by blast
  have "\<exists>q. updateLength straight_utils False trimmed_345 = Inr q"
    unfolding updateLength_Inr using u by simp
  then obtain q where ul: "updateLength straight_utils False trimmed_345 = Inr q" by blast
  have g: "get_length straight_utils trimmed_345 = Inr (length_val q, q)"
    using fl ul by (simp add: get_length_def)
  from lengths_size_amended [of straight_utils False trimmed_345 q "length_val q"] fl g l0
  have a: "length (lengths trimmed_345) \<le> length (vertices q)
      \<and> length (lengths q) = length (vertices q)"
    by simp
  obtain q' where u': "updateLength straight_utils True shrunk_path = Inr q'"
    by (simp add: updateLength_True updateLength_silent_eq)
  have v': "length (vertices q') = 2"
    using u' by (auto simp: updateLength_True updateLength_silent_eq shrunk_fields)
  from lengths_size_amended [of straight_utils True shrunk_path q' 0] u' v'
  have b: "length (lengths shrunk_path) = 3 \<and> length (vertices q') = 2 \<and> length (lengths q') = 3"
    by (simp add: shrunk_fields)
  from fl g a u' b show ?thesis by blast
qed

section \<open>Properties of the subscriptions\<close>

lemma fold_subscribe_frame:
  "w_flags (fold subscribe_anchor xs w) = w_flags w"
  "w_vertices (fold subscribe_anchor xs w) = w_vertices w"
  "w_vertices_insert (fold subscribe_anchor xs w) = w_vertices_insert w"
  "w_vertices_remove (fold subscribe_anchor xs w) = w_vertices_remove w"
  "w_colls (fold subscribe_anchor xs w) = w_colls w"
  by (induction xs arbitrary: w) (simp_all add: subscribe_anchor_def)

lemma fold_subscribe_subscribed:
  "subscribed (fold subscribe_anchor xs w) = mset xs + subscribed w"
  by (induction xs arbitrary: w) (simp_all add: subscribe_anchor_def subscribed_def)

lemma subscribe_subs_ok: "subs_ok w \<Longrightarrow> subs_ok (subscribe_anchor a w)"
  by (fastforce simp: subs_ok_def subscribe_anchor_def)

lemma fold_subscribe_subs_ok: "subs_ok w \<Longrightarrow> subs_ok (fold subscribe_anchor xs w)"
  by (induction xs arbitrary: w) (simp_all add: subscribe_subs_ok)

lemma dispose_frame:
  "dispose_anchors as w = Inr w' \<Longrightarrow>
     w_flags w' = w_flags w \<and> w_vertices w' = w_vertices w
     \<and> w_vertices_insert w' = w_vertices_insert w \<and> w_vertices_remove w' = w_vertices_remove w
     \<and> w_colls w' = w_colls w"
  by (induction as arbitrary: w) (auto split: option.splits)

lemma dispose_step_subscribed:
  assumes "subs_ok w" and "w_anchor_change_map w a = Some s"
  shows "subscribed (w\<lparr>w_live := removeAll (s, a) (w_live w),
              w_anchor_change_map := (w_anchor_change_map w)(a := None)\<rparr>) = subscribed w - {#a#}"
    and "subs_ok (w\<lparr>w_live := removeAll (s, a) (w_live w),
              w_anchor_change_map := (w_anchor_change_map w)(a := None)\<rparr>)"
    and "a \<in># subscribed w"
proof -
  have mem: "(s, a) \<in> set (w_live w)" using assms by (simp add: subs_ok_def)
  have d: "distinct (w_live w)" using assms(1) by (simp add: subs_ok_def distinct_map)
  have "mset (removeAll (s, a) (w_live w)) = mset (w_live w) - {#(s, a)#}"
    using d by (simp add: distinct_remove1_removeAll [symmetric])
  then show "subscribed (w\<lparr>w_live := removeAll (s, a) (w_live w),
              w_anchor_change_map := (w_anchor_change_map w)(a := None)\<rparr>) = subscribed w - {#a#}"
    using mem by (simp add: subscribed_def image_mset_Diff)
  show "a \<in># subscribed w" using mem by (force simp: subscribed_def)
  show "subs_ok (w\<lparr>w_live := removeAll (s, a) (w_live w),
              w_anchor_change_map := (w_anchor_change_map w)(a := None)\<rparr>)"
    using assms(1) by (auto simp: subs_ok_def distinct_map_filter removeAll_filter_not_eq)
qed

lemma dispose_subscribed:
  "dispose_anchors as w = Inr w' \<Longrightarrow> subs_ok w \<Longrightarrow>
     subs_ok w' \<and> mset as \<subseteq># subscribed w \<and> subscribed w' = subscribed w - mset as"
proof (induction as arbitrary: w)
  case Nil
  then show ?case by simp
next
  case (Cons a as)
  from Cons.prems obtain s where s: "w_anchor_change_map w a = Some s"
    by (auto split: option.splits)
  let ?w = "w\<lparr>w_live := removeAll (s, a) (w_live w),
              w_anchor_change_map := (w_anchor_change_map w)(a := None)\<rparr>"
  have r: "dispose_anchors as ?w = Inr w'" using Cons.prems s by simp
  note st = dispose_step_subscribed [OF Cons.prems(2) s]
  from Cons.IH [OF r st(2)]
  have ih: "subs_ok w'" "mset as \<subseteq># subscribed ?w" "subscribed w' = subscribed ?w - mset as"
    by simp_all
  have "mset (a # as) \<subseteq># subscribed w"
    using ih(2) st(1,3) by (simp add: insert_subset_eq_iff)
  moreover have "subscribed w' = subscribed w - mset (a # as)"
    using ih(3) st(1) by simp
  ultimately show ?case using ih(1) by simp
qed

lemma mset_foldr_remove1: "mset (foldr remove1 items xs) = mset xs - mset items"
  by (induction items) (simp_all add: mset_remove1)

lemma subs_ok_flags [simp]: "subs_ok (w\<lparr>w_flags := f\<rparr>) = subs_ok w"
  by (simp add: subs_ok_def)

lemma subscribed_flags [simp]: "subscribed (w\<lparr>w_flags := f\<rparr>) = subscribed w"
  by (simp add: subscribed_def)

lemma subs_ok_colls [simp]: "subs_ok (w\<lparr>w_colls := f\<rparr>) = subs_ok w"
  by (simp add: subs_ok_def)

lemma subscribed_colls [simp]: "subscribed (w\<lparr>w_colls := f\<rparr>) = subscribed w"
  by (simp add: subscribed_def)

lemma mset_diff_mono: "(A::'a multiset) \<subseteq># B \<Longrightarrow> A - C \<subseteq># B - C"
  by (simp add: subseteq_mset_def diff_le_mono)

lemma subs_ok_collection_fields [simp]:
  "subs_ok (w\<lparr>w_vertices := x\<rparr>) = subs_ok w"
  "subs_ok (w\<lparr>w_vertices_insert := y\<rparr>) = subs_ok w"
  "subs_ok (w\<lparr>w_vertices_remove := z\<rparr>) = subs_ok w"
  by (simp_all add: subs_ok_def)

lemma set_vertices_inv:
  assumes "subs_ok w"
  shows "wiring_inv (set_vertices c w)"
proof -
  let ?w3 = "w\<lparr>w_vertices_insert := None, w_vertices_remove := None, w_vertices := Some c,
      w_vertices_insert := Some c, w_vertices_remove := Some c\<rparr>"
  have e: "set_vertices c w = fold subscribe_anchor (w_colls w c) ?w3"
    by (simp add: set_vertices_def Let_def)
  have ok: "subs_ok ?w3" using assms by simp
  have ok': "subs_ok (fold subscribe_anchor (w_colls w c) ?w3)"
    using ok by (rule fold_subscribe_subs_ok)
  show ?thesis
    unfolding e wiring_inv_def using ok'
    by (simp add: fold_subscribe_frame fold_subscribe_subscribed)
qed

lemma new_wiring_inv: "wiring_inv (new_wiring colls c)"
  unfolding new_wiring_def by (rule set_vertices_inv) (simp add: subs_ok_def)

lemma on_insert_inv:
  assumes "wiring_inv w"
  shows "wiring_inv (collection_insert c k items w)"
proof -
  from assms obtain c0 where c0: "w_vertices w = Some c0" "w_vertices_insert w = Some c0"
      "w_vertices_remove w = Some c0" "mset (w_colls w c0) \<subseteq># subscribed w" and ok: "subs_ok w"
    by (auto simp: wiring_inv_def)
  show ?thesis
  proof (cases "c = c0")
    case True
    have "mset (take k (w_colls w c0) @ items @ drop k (w_colls w c0))
        = mset items + mset (w_colls w c0)"
      by (metis append_take_drop_id mset_append union_commute union_assoc)
    then show ?thesis
      using c0 ok True
      by (simp add: wiring_inv_def collection_insert_def on_insert_def Let_def
          fold_subscribe_frame fold_subscribe_subscribed fold_subscribe_subs_ok)
  next
    case False
    then show ?thesis
      using c0 ok by (simp add: wiring_inv_def collection_insert_def Let_def)
  qed
qed

lemma on_remove_inv:
  assumes "wiring_inv w" and "collection_remove c items w = Inr w'"
  shows "wiring_inv w'"
proof -
  from assms obtain c0 where c0: "w_vertices w = Some c0" "w_vertices_insert w = Some c0"
      "w_vertices_remove w = Some c0" "mset (w_colls w c0) \<subseteq># subscribed w" and ok: "subs_ok w"
    by (auto simp: wiring_inv_def)
  show ?thesis
  proof (cases "c = c0")
    case True
    let ?w1 = "w\<lparr>w_colls := (w_colls w)(c := foldr remove1 items (w_colls w c))\<rparr>"
    from assms(2) True c0 obtain w2 where d: "dispose_anchors (rev items) ?w1 = Inr w2"
      and w': "w' = w2\<lparr>w_flags := (w_flags w2)(Vertices := True)\<rparr>"
      by (auto simp: collection_remove_def on_remove_def Let_def split: sum.splits)
    have ok1: "subs_ok ?w1" using ok by simp
    from dispose_subscribed [OF d ok1]
    have r: "subs_ok w2" "subscribed w2 = subscribed w - mset items" by simp_all
    from dispose_frame [OF d]
    have f: "w_vertices w2 = Some c0" "w_vertices_insert w2 = Some c0"
      "w_vertices_remove w2 = Some c0" "w_colls w2 = (w_colls w)(c := foldr remove1 items (w_colls w c))"
      using c0 by simp_all
    have "mset (w_colls w2 c0) \<subseteq># subscribed w2"
      using c0(4) True by (simp add: f r mset_foldr_remove1 mset_diff_mono)
    then show ?thesis using r f by (simp add: wiring_inv_def w')
  next
    case False
    then have "w' = w\<lparr>w_colls := (w_colls w)(c := foldr remove1 items (w_colls w c))\<rparr>"
      using assms(2) c0 by (simp add: collection_remove_def Let_def)
    then show ?thesis using c0 ok False by (simp add: wiring_inv_def)
  qed
qed

lemma anchor_change_inv: "wiring_inv w \<Longrightarrow> wiring_inv (anchor_change a w)"
  by (simp add: wiring_inv_def anchor_change_def)

lemma flagReset_inv: "wiring_inv w \<Longrightarrow> wiring_inv (w_flagReset d w)"
  by (simp add: wiring_inv_def w_flagReset_def)

lemma wiring_inv_subs_ok: "wiring_inv w \<Longrightarrow> subs_ok w"
  by (simp add: wiring_inv_def)

lemma reachable_inv: "reachable w \<Longrightarrow> wiring_inv w"
proof (induction rule: reachable.induct)
  case (built colls c)
  show ?case by (rule new_wiring_inv)
next
  case (assigned w c)
  then show ?case by (simp add: set_vertices_inv wiring_inv_subs_ok)
next
  case (inserted w c k items)
  then show ?case by (simp add: on_insert_inv)
next
  case (removed w c items w')
  then show ?case by (simp add: on_remove_inv)
next
  case (changed w a)
  then show ?case by (simp add: anchor_change_inv)
next
  case (reset w d)
  then show ?case by (simp add: flagReset_inv)
qed

lemma owned_anchor_flags:
  assumes "wiring_inv w" and "w_vertices w = Some c" and "a \<in> set (w_colls w c)"
  shows "w_flags (anchor_change a w) Vertices"
proof -
  have "mset (w_colls w c) \<subseteq># subscribed w" using assms by (auto simp: wiring_inv_def)
  moreover have "a \<in># mset (w_colls w c)" using assms(3) by simp
  ultimately have "a \<in># subscribed w" by (rule mset_subset_eqD)
  then have "a \<in> snd ` set (w_live w)" by (auto simp: subscribed_def)
  then show ?thesis by (simp add: anchor_change_def)
qed

text \<open>
  C9. Assigning \<open>strokeWidth\<close> never changes the Vertices flag: it changes no flag but
  Linewidth, which it sets exactly when the value is a number that differs from the
  current width. And whenever an anchor of the Collection that a path owns is mutated,
  the Vertices flag of the path is set afterwards: every anchor of the Collection has a
  live subscription of the path, in every wiring reached from the constructor.
\<close>

theorem flag_minimality:
  "flags (set_strokeWidth v p) Vertices = flags p Vertices
   \<and> (\<forall>f. f \<noteq> Linewidth \<longrightarrow> flags (set_strokeWidth v p) f = flags p f)
   \<and> (flags (set_strokeWidth v p) Linewidth
        \<longleftrightarrow> flags p Linewidth \<or> (\<exists>x. v = Some x \<and> x \<noteq> stroke_width p))
   \<and> (reachable w \<longrightarrow> w_vertices w = Some c \<longrightarrow> a \<in> set (w_colls w c)
        \<longrightarrow> w_flags (anchor_change a w) Vertices)"
proof -
  have s: "flags (set_strokeWidth v p) Vertices = flags p Vertices"
    "\<forall>f. f \<noteq> Linewidth \<longrightarrow> flags (set_strokeWidth v p) f = flags p f"
    "flags (set_strokeWidth v p) Linewidth
        \<longleftrightarrow> flags p Linewidth \<or> (\<exists>x. v = Some x \<and> x \<noteq> stroke_width p)"
    by (auto simp: set_strokeWidth_def split: option.splits)
  have o: "w_flags (anchor_change a w) Vertices"
    if "reachable w" "w_vertices w = Some c" "a \<in> set (w_colls w c)"
    using owned_anchor_flags [OF reachable_inv [OF that(1)] that(2,3)] .
  show ?thesis using s o by blast
qed

theorem flag_minimality_witness:
  "\<not> flags (flagReset False dot_path) Vertices
   \<and> \<not> flags (set_strokeWidth (Some 2) (flagReset False dot_path)) Vertices
   \<and> flags (set_strokeWidth (Some 2) (flagReset False dot_path)) Linewidth
   \<and> reachable (w_flagReset False (new_wiring two_colls 0))
   \<and> w_vertices (w_flagReset False (new_wiring two_colls 0)) = Some 0
   \<and> 7 \<in> set (w_colls (w_flagReset False (new_wiring two_colls 0)) 0)
   \<and> \<not> w_flags (w_flagReset False (new_wiring two_colls 0)) Vertices
   \<and> w_flags (anchor_change 7 (w_flagReset False (new_wiring two_colls 0))) Vertices"
proof -
  let ?w = "w_flagReset False (new_wiring two_colls 0)"
  have r: "reachable ?w" by (intro reachable.reset reachable.built)
  have v: "w_vertices ?w = Some 0"
    by (simp add: w_flagReset_def new_wiring_def set_vertices_def Let_def fold_subscribe_frame)
  have "w_colls ?w = two_colls"
    by (simp add: w_flagReset_def new_wiring_def set_vertices_def Let_def fold_subscribe_frame)
  then have m: "7 \<in> set (w_colls ?w 0)"
    by (simp add: two_colls_def)
  have f: "\<not> w_flags ?w Vertices" by (simp add: w_flagReset_def)
  have d: "\<not> flags (flagReset False dot_path) Vertices" by (simp add: flagReset_def)
  have ne: "Some 2 = Some (2::real) \<and> 2 \<noteq> stroke_width (flagReset False dot_path)"
    by (simp add: flagReset_def dot_path_def new_Path_def)
  show ?thesis
    using flag_minimality [of "Some 2" "flagReset False dot_path" ?w 0 7] r v m f d ne
    by blast
qed

text \<open>
  C5: the setter of \<open>vertices\<close> at a failing input. A path is built with a Collection
  holding the anchor \<open>7\<close> and rendered; then the empty Collection \<open>1\<close> is assigned. The
  path now listens to Collection \<open>1\<close>, but the subscription \<open>0\<close> to the anchor \<open>7\<close> of the
  old Collection is still live, the Vertices flag has not been set by the assignment, and
  a later mutation of the anchor \<open>7\<close> sets the flag of the path that no longer owns it.
\<close>

theorem vertices_setter_keeps_old_listeners:
  "w_vertices rewired = Some 1 \<and> w_vertices_insert rewired = Some 1
   \<and> w_vertices_remove rewired = Some 1
   \<and> 7 \<notin> set (w_colls rewired 1)
   \<and> (0, 7) \<in> set (w_live rewired)
   \<and> \<not> w_flags rewired Vertices
   \<and> w_flags (anchor_change 7 rewired) Vertices"
  by (simp add: rewired_def set_vertices_def w_flagReset_def new_wiring_def two_colls_def
      subscribe_anchor_def anchor_change_def Let_def)

section \<open>Two updates in a row\<close>

lemma populate_anchor_copy:
  "populate u a b (anchor_copy w src) = populate u a b (anchor_copy w' src)"
  by (simp add: populate_def anchor_copy_def Let_def)

lemma t_populate: "t (populate u a b ank) = Some u"
  by (simp add: populate_def Let_def)

lemma padded_pad [simp]: "padded (pad i A) j = padded A j"
  by (auto simp: padded_def pad_def nth_append)

lemma padded_update: "padded (A[k := x]) j = (if j = k \<and> k < length A then x else padded A j)"
  by (auto simp: padded_def)

lemma length_pad: "i \<le> length A \<Longrightarrow> i < length (pad i A)"
  by (simp add: pad_def)

lemma nth_padded: "j < length A \<Longrightarrow> A ! j = padded A j"
  by (simp add: padded_def)

lemma anchor_copy_t: "t w = t w' \<Longrightarrow> anchor_copy w src = anchor_copy w' src"
  by (simp add: anchor_copy_def)

lemma t_anchor_copy [simp]: "t (anchor_copy w src) = t w"
  by (simp add: anchor_copy_def)

lemma step_skip:
  assumes "\<not> (uB < int i \<and> t_right s = None)" and "\<not> (lB \<le> int i \<and> int i \<le> uB)"
  shows "update_step p bg en lB uB i s = Inr (s\<lparr>t_anchors := pad i (t_anchors s)\<rparr>)"
  using assms by (auto simp: update_step_def pad_def Let_def)

lemma keep_value_t: "t w = t w' \<Longrightarrow> keep_value p bg en lB uB i w = keep_value p bg en lB uB i w'"
  by (simp add: keep_value_def anchor_copy_t [of w w'])

lemma step_keep:
  assumes "\<not> (uB < int i \<and> t_right s = None)" and "lB \<le> int i" and "int i \<le> uB"
    and "i \<le> length (t_anchors s)" and "i < length (vertices p)"
  shows "update_step p bg en lB uB i s =
     Inr (s\<lparr>t_anchors := (pad i (t_anchors s))[i := keep_value p bg en lB uB i (padded (t_anchors s) i)],
            t_buffer := t_buffer s @ [i],
            t_right := (if int i = uB \<and> contains_path p en then Some i else t_right s),
            t_left := (if \<not> (int i = uB \<and> contains_path p en) \<and> int i = lB \<and> contains_path p bg
                       then Some i else t_left s)\<rparr>)"
proof -
  have l: "i < length (pad i (t_anchors s))" using assms(4) by (rule length_pad)
  have n: "pad i (t_anchors s) ! i = padded (t_anchors s) i"
    using nth_padded [OF l] by simp
  have d: "defined_at (pad i (t_anchors s)) (int i) = Inr (padded (t_anchors s) i)"
    using l n by (simp add: defined_at_def getAt_def)
  have dv: "defined_at (vertices p) (int i) = Inr (vertices p ! i)"
    using assms(5) by (simp add: defined_at_def getAt_def)
  have fold: "(if length (t_anchors s) \<le> i then t_anchors s @ [new_Anchor 0 0]
      else t_anchors s) = pad i (t_anchors s)"
    by (simp add: pad_def)
  show ?thesis
    unfolding update_step_def fold
    using assms(1-3) by (auto simp: Let_def d dv keep_value_def)
qed

lemma step_sample:
  assumes "uB < int i" and "t_right s = None" and "i \<le> length (t_anchors s)"
    and "copy_and_sample p (pad i (t_anchors s)) (int i) en = Inr v" and "t v = Some u"
  shows "update_step p bg en lB uB i s =
     Inr (s\<lparr>t_anchors := sample_anchors p i v u (pad i (t_anchors s)),
            t_buffer := t_buffer s @ [i], t_right := Some i\<rparr>)"
proof -
  have fold: "(if length (t_anchors s) \<le> i then t_anchors s @ [new_Anchor 0 0]
      else t_anchors s) = pad i (t_anchors s)"
    by (simp add: pad_def)
  have l: "i < length (pad i (t_anchors s))" using assms(3) by (rule length_pad)
  have tv: "t_of (clear_right v) = Inr u"
    using assms(5) by (simp add: t_of_def clear_right_def)
  have n: "(pad i (t_anchors s))[i := clear_right v] ! (i - Suc 0)
      = padded ((pad i (t_anchors s))[i := clear_right v]) (i - Suc 0)"
    using l by (simp add: padded_def)
  show ?thesis
    unfolding update_step_def fold
    using assms(1,2)
    by (simp add: Let_def assms(4) tv n sample_anchors_def project_right_def split: option.splits)
qed

lemma padded_sample_anchors:
  assumes "i < length ancs"
  shows "padded (sample_anchors p i v u ancs) j =
     (case getAt (vertices p) (int i - 1) of
        None \<Rightarrow> (if j = i then v else padded ancs j)
      | Some prev \<Rightarrow>
         (if j = i - 1 then project_right (padded (ancs[i := clear_right v]) (i - 1)) prev u
          else if j = i then clear_right v else padded ancs j))"
  using assms by (auto simp: sample_anchors_def padded_update split: option.splits)

lemma length_sample_anchors [simp]: "length (sample_anchors p i v u ancs) = length ancs"
  by (simp add: sample_anchors_def split: option.splits)

lemma getAt_prev: "getAt xs (int i - 1) = Some y \<Longrightarrow> 0 < i"
  by (auto simp: getAt_def split: if_splits)

lemma t_keep_value [simp]: "t (keep_value p bg en lB uB i w) = t w"
  by (simp add: keep_value_def clear_right_def clear_left_def Let_def)

lemma copy_and_sample_range:
  "copy_and_sample p ancs i u = Inr v \<Longrightarrow>
     0 \<le> i \<and> i < int (length ancs) \<and> i < int (length (vertices p))"
  by (auto simp: copy_and_sample_def defined_at_def getAt_def split: sum.splits if_splits)

lemma prepend_skip:
  "\<not> (0 < lB \<and> t_left s = None) \<Longrightarrow> prepend_trimmed p bg lB s = Inr s"
  by (auto simp: prepend_trimmed_def)

lemma prepend_form:
  assumes "0 < lB" and "t_left s = None"
    and cs: "copy_and_sample p (t_anchors s) (lB - 1) bg = Inr v" and u: "t v = Some u"
    and len: "length (vertices p) \<le> length (t_anchors s)"
  shows "prepend_trimmed p bg lB s =
     Inr (s\<lparr>t_anchors := prepend_anchors p (nat (lB - 1)) v u (t_anchors s),
            t_buffer := nat (lB - 1) # t_buffer s\<rparr>)"
proof -
  have tv: "t_of (v\<lparr>command := Move, controls_left := vec_of 0 0\<rparr>) = Inr u"
    using u by (simp add: t_of_def)
  have i: "int (nat (lB - 1)) + 1 = lB" "lB - 1 + 1 = lB" using assms(1) by simp_all
  have n: "t_anchors s ! Suc (nat (lB - 1)) = padded (t_anchors s) (Suc (nat (lB - 1)))"
    if "getAt (vertices p) lB = Some nxt" for nxt
  proof -
    from that have "lB < int (length (vertices p))" by (simp add: getAt_def split: if_splits)
    then have "Suc (nat (lB - 1)) < length (t_anchors s)" using len assms(1) by arith
    then show ?thesis by (simp add: padded_def)
  qed
  show ?thesis
    unfolding prepend_trimmed_def
    using assms(1,2)
    by (auto simp: Let_def cs tv i n prepend_anchors_def project_left_def padded_update
        split: option.splits)
qed

lemma padded_prepend_anchors:
  assumes "x < length ancs"
  shows "padded (prepend_anchors p x v u ancs) j =
     (case getAt (vertices p) (int x + 1) of
        None \<Rightarrow> (if j = x then v\<lparr>command := Move\<rparr> else padded ancs j)
      | Some nxt \<Rightarrow>
         (if j = x + 1 \<and> x + 1 < length ancs
          then project_left (padded (ancs[x := v\<lparr>command := Move, controls_left := vec_of 0 0\<rparr>]) (x + 1)) nxt u
          else if j = x then v\<lparr>command := Move, controls_left := vec_of 0 0\<rparr> else padded ancs j))"
  using assms by (auto simp: prepend_anchors_def padded_update split: option.splits)

lemma length_prepend_anchors [simp]: "length (prepend_anchors p x v u ancs) = length ancs"
  by (simp add: prepend_anchors_def split: option.splits)

lemma sample_cases:
  obtains (populated) u' a b
    where "\<And>ank. getPointAt_at len p u ank = Inr (Populated (populate u' a b ank))"
  | (other) X where "\<And>ank. getPointAt_at len p u ank = X" "\<And>v. X \<noteq> Inr (Populated v)"
proof (cases "find_segment (lengths p) 0 0 (len * min (max u 0) 1)")
  case None
  show ?thesis
    by (rule other [of "Inr Null"]) (simp_all add: getPointAt_at_None [OF None])
next
  case (Some r)
  obtain i sm l where r: "r = (i, sm, l)" by (cases r)
  note f = getPointAt_at_Some [OF Some [unfolded r]]
  show ?thesis
  proof (cases "enclosing (closed p) (int i) (int (length (vertices p)))")
    case (Inl e)
    show ?thesis by (rule other [of "Inl e"]) (simp_all add: f Inl)
  next
    case (Inr iab)
    obtain ia ib where iab: "iab = (ia, ib)" by (cases iab)
    show ?thesis
    proof (cases "getAt_opt (vertices p) ia")
      case None
      show ?thesis
        by (rule other [of "Inr (Other (getAt_opt (vertices p) ib))"])
          (simp_all add: f Inr iab None)
    next
      case a: (Some a)
      show ?thesis
      proof (cases "getAt_opt (vertices p) ib")
        case None
        show ?thesis
          by (rule other [of "Inr (Other (Some a))"]) (simp_all add: f Inr iab a None)
      next
        case b: (Some b)
        show ?thesis
          by (rule populated [of "if l \<noteq> 0 then (len * min (max u 0) 1 - sm) / l else 0" a b])
            (simp add: f Inr iab a b)
      qed
    qed
  qed
qed

lemma found_populates:
  assumes "found p u"
  obtains u' a b
    where "\<And>ank. getPointAt_at (length_val p) p u ank = Inr (Populated (populate u' a b ank))"
proof (cases rule: sample_cases [of "length_val p" p u])
  case (populated u' a b)
  then show ?thesis by (rule that)
next
  case (other X)
  with assms show ?thesis by (auto simp: found_def)
qed

lemma unfound_constant:
  assumes "\<not> found p u"
  obtains X where "\<And>ank. getPointAt_at (length_val p) p u ank = X" "\<And>v. X \<noteq> Inr (Populated v)"
proof (cases rule: sample_cases [of "length_val p" p u])
  case (populated u' a b)
  with assms show ?thesis by (auto simp: found_def)
next
  case (other X)
  then show ?thesis by (rule that)
qed

lemma copy_and_sample_found:
  assumes "found p u" and "i < length ancs" and "i < length ancs'"
  shows "copy_and_sample p ancs (int i) u = copy_and_sample p ancs' (int i) u"
proof (cases "i < length (vertices p)")
  case True
  from found_populates [OF assms(1)] obtain u' a b
    where s: "\<And>ank. getPointAt_at (length_val p) p u ank = Inr (Populated (populate u' a b ank))"
    by blast
  show ?thesis
    using assms(2,3) True
    by (simp add: copy_and_sample_def defined_at_def getAt_def s
        populate_anchor_copy [of _ _ _ "ancs ! i" _ "ancs' ! i"])
next
  case False
  then show ?thesis
    using assms(2,3) by (simp add: copy_and_sample_def defined_at_def getAt_def)
qed

lemma copy_and_sample_found_t:
  assumes "found p u" and "copy_and_sample p ancs i u = Inr v"
  shows "\<exists>u'. t v = Some u'"
proof -
  from found_populates [OF assms(1)] obtain u' a b
    where s: "\<And>ank. getPointAt_at (length_val p) p u ank = Inr (Populated (populate u' a b ank))"
    by blast
  from assms(2) have "t v = Some u'"
    by (auto simp: copy_and_sample_def s t_populate Let_def split: sum.splits)
  then show ?thesis by blast
qed

lemma copy_and_sample_unfound:
  assumes "\<not> found p u" and "i < length ancs" and "copy_and_sample p ancs (int i) u = Inr v"
  shows "v = anchor_copy (ancs ! i) (vertices p ! i)"
    and "i < length ancs' \<Longrightarrow>
      copy_and_sample p ancs' (int i) u = Inr (anchor_copy (ancs' ! i) (vertices p ! i))"
proof -
  from unfound_constant [OF assms(1)] obtain X
    where X: "\<And>ank. getPointAt_at (length_val p) p u ank = X" "\<And>v. X \<noteq> Inr (Populated v)"
    by blast
  from copy_and_sample_range [OF assms(3)] have n: "i < length (vertices p)" by simp
  have form: "copy_and_sample p B (int i) u =
      (case X of Inl e \<Rightarrow> Inl e | Inr r \<Rightarrow> Inr (anchor_copy (B ! i) (vertices p ! i)))"
    if "i < length B" for B
    using that n X(2)
    by (auto simp: copy_and_sample_def defined_at_def getAt_def X(1) Let_def
        split: sum.splits point_result.splits)
  from assms(3) form [OF assms(2)] obtain r where r: "X = Inr r"
    by (cases X) auto
  show "v = anchor_copy (ancs ! i) (vertices p ! i)"
    using assms(3) form [OF assms(2)] r by simp
  show "copy_and_sample p ancs' (int i) u = Inr (anchor_copy (ancs' ! i) (vertices p ! i))"
    if "i < length ancs'"
    using form [OF that] r by simp
qed


lemma step_sample_any:
  assumes "uB < int i" and "t_right s = None" and "i \<le> length (t_anchors s)"
    and "copy_and_sample p (pad i (t_anchors s)) (int i) en = Inr v"
    and "getAt (vertices p) (int i - 1) \<noteq> None \<longrightarrow> t v = Some u"
  shows "update_step p bg en lB uB i s =
     Inr (s\<lparr>t_anchors := sample_anchors p i v u (pad i (t_anchors s)),
            t_buffer := t_buffer s @ [i], t_right := Some i\<rparr>)"
proof (cases "getAt (vertices p) (int i - 1)")
  case None
  have fold: "(if length (t_anchors s) \<le> i then t_anchors s @ [new_Anchor 0 0]
      else t_anchors s) = pad i (t_anchors s)"
    by (simp add: pad_def)
  show ?thesis
    unfolding update_step_def fold
    using assms(1,2) by (simp add: Let_def assms(4) None sample_anchors_def)
next
  case (Some prev)
  with assms(5) have "t v = Some u" by simp
  from step_sample [OF assms(1-4) this] show ?thesis .
qed

lemma sample_success:
  assumes "uB < int i" and "t_right s = None"
    and "update_step p bg en lB uB i s = Inr s1"
  obtains v u where "copy_and_sample p (pad i (t_anchors s)) (int i) en = Inr v"
    and "getAt (vertices p) (int i - 1) \<noteq> None \<longrightarrow> t v = Some u"
proof -
  from assms obtain v where cs: "copy_and_sample p (pad i (t_anchors s)) (int i) en = Inr v"
    unfolding update_step_def pad_def by (auto simp: Let_def split: sum.splits)
  have fold: "(if length (t_anchors s) \<le> i then t_anchors s @ [new_Anchor 0 0]
      else t_anchors s) = pad i (t_anchors s)"
    by (simp add: pad_def)
  have "getAt (vertices p) (int i - 1) \<noteq> None \<longrightarrow> (\<exists>u. t v = Some u)"
    using assms unfolding update_step_def fold
    by (auto simp: Let_def cs t_of_def clear_right_def split: option.splits sum.splits)
  then obtain u where "getAt (vertices p) (int i - 1) \<noteq> None \<longrightarrow> t v = Some u" by blast
  with cs show ?thesis by (rule that)
qed


lemma agreeI:
  assumes "t_buffer s' = t_buffer s" "t_right s' = t_right s" "t_left s' = t_left s"
    and "i \<le> length (t_anchors s)" "i \<le> length (t_anchors s')"
    and "\<And>j. j \<in> set (t_buffer s) \<Longrightarrow> j < i
           \<and> (exceptional p bg en lB uB j \<or> padded (t_anchors s') j = padded (t_anchors s) j)"
    and "\<And>j. i \<le> j \<Longrightarrow> (lB \<le> int j \<and> int j \<le> uB) \<or> (j = nat (uB + 1) \<and> \<not> found p en)
            \<Longrightarrow> exceptional p bg en lB uB j
              \<or> t (padded (t_anchors s') j) = t (padded (t_anchors s) j)"
    and "\<And>j. i \<le> j \<Longrightarrow> exceptional p bg en lB uB j \<Longrightarrow> t (padded (t_anchors s') j) \<noteq> None"
    and "t_right s = None \<Longrightarrow> i \<le> nat (uB + 1) \<and> (\<forall>j \<in> set (t_buffer s). lB \<le> int j)"
    and "t_left s \<noteq> None \<Longrightarrow> lB \<le> uB"
    and "t_right s \<noteq> None \<Longrightarrow> lB \<le> uB \<or> nat (uB + 1) < i"
    and "0 < lB \<Longrightarrow> \<not> found p bg
          \<Longrightarrow> nat (lB - 1) < i \<or> nat (lB - 1) \<noteq> nat (uB + 1) \<or> \<not> found p en
          \<Longrightarrow> t (padded (t_anchors s') (nat (lB - 1))) = t (padded (t_anchors s) (nat (lB - 1)))"
  shows "agree p bg en lB uB i s s'"
  unfolding agree_def using assms by blast

lemma agreeD:
  assumes "agree p bg en lB uB i s s'"
  shows "t_buffer s' = t_buffer s" "t_right s' = t_right s" "t_left s' = t_left s"
    and "i \<le> length (t_anchors s)" "i \<le> length (t_anchors s')"
    and "\<And>j. j \<in> set (t_buffer s) \<Longrightarrow> j < i
           \<and> (exceptional p bg en lB uB j \<or> padded (t_anchors s') j = padded (t_anchors s) j)"
    and "\<And>j. i \<le> j \<Longrightarrow> (lB \<le> int j \<and> int j \<le> uB) \<or> (j = nat (uB + 1) \<and> \<not> found p en)
            \<Longrightarrow> exceptional p bg en lB uB j
              \<or> t (padded (t_anchors s') j) = t (padded (t_anchors s) j)"
    and "\<And>j. i \<le> j \<Longrightarrow> exceptional p bg en lB uB j \<Longrightarrow> t (padded (t_anchors s') j) \<noteq> None"
    and "t_right s = None \<Longrightarrow> i \<le> nat (uB + 1) \<and> (\<forall>j \<in> set (t_buffer s). lB \<le> int j)"
    and "t_left s \<noteq> None \<Longrightarrow> lB \<le> uB"
    and "t_right s \<noteq> None \<Longrightarrow> lB \<le> uB \<or> nat (uB + 1) < i"
    and "0 < lB \<Longrightarrow> \<not> found p bg
          \<Longrightarrow> nat (lB - 1) < i \<or> nat (lB - 1) \<noteq> nat (uB + 1) \<or> \<not> found p en
          \<Longrightarrow> t (padded (t_anchors s') (nat (lB - 1))) = t (padded (t_anchors s) (nat (lB - 1)))"
  using assms unfolding agree_def by blast+

lemma agree_skip:
  assumes ag: "agree p bg en lB uB i s s'"
    and skip: "\<not> (uB < int i \<and> t_right s = None)" "\<not> (lB \<le> int i \<and> int i \<le> uB)"
  shows "agree p bg en lB uB (Suc i) (s\<lparr>t_anchors := pad i (t_anchors s)\<rparr>)
     (s'\<lparr>t_anchors := pad i (t_anchors s')\<rparr>)"
proof (rule agreeI)
  note d = agreeD [OF ag]
  let ?s = "s\<lparr>t_anchors := pad i (t_anchors s)\<rparr>" and ?s' = "s'\<lparr>t_anchors := pad i (t_anchors s')\<rparr>"
  show "t_buffer ?s' = t_buffer ?s" "t_right ?s' = t_right ?s" "t_left ?s' = t_left ?s"
    using d(1-3) by simp_all
  show "Suc i \<le> length (t_anchors ?s)" "Suc i \<le> length (t_anchors ?s')"
    using d(4,5) length_pad [of i] by (simp_all add: Suc_le_eq)
  show "j < Suc i \<and> (exceptional p bg en lB uB j \<or> padded (t_anchors ?s') j = padded (t_anchors ?s) j)"
    if "j \<in> set (t_buffer ?s)" for j
    using d(6) [of j] that by auto
  show "exceptional p bg en lB uB j \<or> t (padded (t_anchors ?s') j) = t (padded (t_anchors ?s) j)"
    if "Suc i \<le> j" "(lB \<le> int j \<and> int j \<le> uB) \<or> (j = nat (uB + 1) \<and> \<not> found p en)" for j
    using d(7) [of j] that by auto
  show "t (padded (t_anchors ?s') j) \<noteq> None" if "Suc i \<le> j" "exceptional p bg en lB uB j" for j
    using d(8) [of j] that by auto
  show "Suc i \<le> nat (uB + 1) \<and> (\<forall>j \<in> set (t_buffer ?s). lB \<le> int j)" if "t_right ?s = None"
    using d(9) that skip(1) by auto
  show "lB \<le> uB" if "t_left ?s \<noteq> None" using d(10) that by simp
  show "lB \<le> uB \<or> nat (uB + 1) < Suc i" if "t_right ?s \<noteq> None"
    using d(11) that by auto
  show "t (padded (t_anchors ?s') (nat (lB - 1))) = t (padded (t_anchors ?s) (nat (lB - 1)))"
    if h: "0 < lB" "\<not> found p bg"
      "nat (lB - 1) < Suc i \<or> nat (lB - 1) \<noteq> nat (uB + 1) \<or> \<not> found p en"
  proof -
    have "nat (lB - 1) < i \<or> nat (lB - 1) \<noteq> nat (uB + 1) \<or> \<not> found p en"
    proof (rule ccontr)
      assume c: "\<not> ?thesis"
      with h(3) have e: "nat (lB - 1) = i" "i = nat (uB + 1)" by auto
      then have "uB < int i" by linarith
      with skip(1) have "t_right s \<noteq> None" by simp
      from d(11) [OF this] e h(1) show False by linarith
    qed
    from d(12) [OF h(1,2) this] show ?thesis by simp
  qed
qed


lemma agree_keep:
  assumes ag: "agree p bg en lB uB i s s'"
    and keep: "lB \<le> int i" "int i \<le> uB"
    and R: "R = None \<longleftrightarrow> t_right s = None \<and> \<not> (int i = uB \<and> contains_path p en)"
    and L: "L \<noteq> None \<longrightarrow> L = Some i \<or> L = t_left s"
  shows "agree p bg en lB uB (Suc i)
     (s\<lparr>t_anchors := (pad i (t_anchors s))[i := keep_value p bg en lB uB i (padded (t_anchors s) i)],
        t_buffer := t_buffer s @ [i], t_right := R, t_left := L\<rparr>)
     (s'\<lparr>t_anchors := (pad i (t_anchors s'))[i := keep_value p bg en lB uB i (padded (t_anchors s') i)],
        t_buffer := t_buffer s' @ [i], t_right := R, t_left := L\<rparr>)"
    (is "agree _ _ _ _ _ _ ?s ?s'")
proof (rule agreeI)
  note d = agreeD [OF ag]
  have ne: "\<not> exceptional p bg en lB uB i" using keep by (auto simp: exceptional_def)
  have "t (padded (t_anchors s') i) = t (padded (t_anchors s) i)"
    using d(7) [of i] keep ne by simp
  then have kv: "keep_value p bg en lB uB i (padded (t_anchors s') i)
      = keep_value p bg en lB uB i (padded (t_anchors s) i)"
    by (rule keep_value_t)
  have lp: "i < length (pad i (t_anchors s))" "i < length (pad i (t_anchors s'))"
    using d(4,5) by (simp_all add: length_pad)
  show "t_buffer ?s' = t_buffer ?s" "t_right ?s' = t_right ?s" "t_left ?s' = t_left ?s"
    using d(1-3) by simp_all
  show "Suc i \<le> length (t_anchors ?s)" "Suc i \<le> length (t_anchors ?s')"
    using lp by simp_all
  show "j < Suc i \<and> (exceptional p bg en lB uB j \<or> padded (t_anchors ?s') j = padded (t_anchors ?s) j)"
    if "j \<in> set (t_buffer ?s)" for j
    using d(6) [of j] that lp kv by (auto simp: padded_update)
  show "exceptional p bg en lB uB j \<or> t (padded (t_anchors ?s') j) = t (padded (t_anchors ?s) j)"
    if "Suc i \<le> j" "(lB \<le> int j \<and> int j \<le> uB) \<or> (j = nat (uB + 1) \<and> \<not> found p en)" for j
    using d(7) [of j] that by (auto simp: padded_update)
  show "t (padded (t_anchors ?s') j) \<noteq> None" if "Suc i \<le> j" "exceptional p bg en lB uB j" for j
    using d(8) [of j] that by (auto simp: padded_update)
  show "Suc i \<le> nat (uB + 1) \<and> (\<forall>j \<in> set (t_buffer ?s). lB \<le> int j)" if "t_right ?s = None"
    using d(9) that R keep by auto
  show "lB \<le> uB" if "t_left ?s \<noteq> None" using d(10) that L keep by auto
  show "lB \<le> uB \<or> nat (uB + 1) < Suc i" if "t_right ?s \<noteq> None"
    using keep by simp
  show "t (padded (t_anchors ?s') (nat (lB - 1))) = t (padded (t_anchors ?s) (nat (lB - 1)))"
    if h: "0 < lB" "\<not> found p bg"
      "nat (lB - 1) < Suc i \<or> nat (lB - 1) \<noteq> nat (uB + 1) \<or> \<not> found p en"
  proof -
    have x: "nat (lB - 1) < i" using h(1) keep(1) by linarith
    from d(12) [OF h(1,2)] x show ?thesis by (simp add: padded_update)
  qed
qed

lemma t_clear_right [simp]: "t (clear_right v) = t v"
  by (simp add: clear_right_def)

lemma t_project_right [simp]: "t (project_right w prev u) = t w"
  by (simp add: project_right_def)

lemma agree_sample:
  assumes ag: "agree p bg en lB uB i s s'"
    and sample: "uB < int i" "t_right s = None"
    and v: "exceptional p bg en lB uB i \<or> (v' = v \<and> u' = u)"
    and tv: "exceptional p bg en lB uB i \<longrightarrow> t v' \<noteq> None"
  shows "agree p bg en lB uB (Suc i)
     (s\<lparr>t_anchors := sample_anchors p i v u (pad i (t_anchors s)),
        t_buffer := t_buffer s @ [i], t_right := Some i\<rparr>)
     (s'\<lparr>t_anchors := sample_anchors p i v' u' (pad i (t_anchors s')),
        t_buffer := t_buffer s' @ [i], t_right := Some i\<rparr>)"
    (is "agree _ _ _ _ _ _ ?s ?s'")
proof (rule agreeI)
  note d = agreeD [OF ag]
  have lp: "i < length (pad i (t_anchors s))" "i < length (pad i (t_anchors s'))"
    using d(4,5) by (simp_all add: length_pad)
  have si: "i = nat (uB + 1)" using d(9) [OF sample(2)] sample(1) by linarith
  note ps = padded_sample_anchors [OF lp(1)] padded_sample_anchors [OF lp(2)]
  have buf_exc: "False" if "exceptional p bg en lB uB i" "j \<in> set (t_buffer s)" for j
  proof -
    from d(9) [OF sample(2)] that(2) have "lB \<le> int j" by blast
    moreover from d(6) [OF that(2)] have "j < i" by simp
    ultimately show False using that(1) by (simp add: exceptional_def)
  qed
  show "t_buffer ?s' = t_buffer ?s" "t_right ?s' = t_right ?s" "t_left ?s' = t_left ?s"
    using d(1-3) by simp_all
  show "Suc i \<le> length (t_anchors ?s)" "Suc i \<le> length (t_anchors ?s')"
    using lp by simp_all
  show "j < Suc i \<and> (exceptional p bg en lB uB j \<or> padded (t_anchors ?s') j = padded (t_anchors ?s) j)"
    if j: "j \<in> set (t_buffer ?s)" for j
  proof (cases "exceptional p bg en lB uB i")
    case True
    then show ?thesis using j buf_exc [OF True] d(6) by auto
  next
    case False
    with v have e: "v' = v" "u' = u" by simp_all
    have pe: "padded (t_anchors s') k = padded (t_anchors s) k" if "k \<in> set (t_buffer s)" "k = i - 1" "0 < i" for k
      using d(6) [OF that(1)] that(2,3) si by (auto simp: exceptional_def)
    show ?thesis
      using j d(6) [of j] lp pe [of j]
      by (auto simp: ps e padded_update split: option.splits dest: getAt_prev)
  qed
  show "exceptional p bg en lB uB j \<or> t (padded (t_anchors ?s') j) = t (padded (t_anchors ?s) j)"
    if "Suc i \<le> j" "(lB \<le> int j \<and> int j \<le> uB) \<or> (j = nat (uB + 1) \<and> \<not> found p en)" for j
    using d(7) [of j] that lp by (auto simp: ps split: option.splits)
  show "t (padded (t_anchors ?s') j) \<noteq> None" if "Suc i \<le> j" "exceptional p bg en lB uB j" for j
    using d(8) [of j] that lp by (auto simp: ps split: option.splits)
  show "Suc i \<le> nat (uB + 1) \<and> (\<forall>j \<in> set (t_buffer ?s). lB \<le> int j)" if "t_right ?s = None"
    using that by simp
  show "lB \<le> uB" if "t_left ?s \<noteq> None" using d(10) that by simp
  show "lB \<le> uB \<or> nat (uB + 1) < Suc i" if "t_right ?s \<noteq> None"
    using si by simp
  show "t (padded (t_anchors ?s') (nat (lB - 1))) = t (padded (t_anchors ?s) (nat (lB - 1)))"
    if h: "0 < lB" "\<not> found p bg"
      "nat (lB - 1) < Suc i \<or> nat (lB - 1) \<noteq> nat (uB + 1) \<or> \<not> found p en"
  proof -
    have ne: "\<not> exceptional p bg en lB uB i" using h(2) by (simp add: exceptional_def)
    with v have e: "v' = v" "u' = u" by simp_all
    let ?x = "nat (lB - 1)"
    consider "?x = i" | "?x < i" | "i < ?x" by linarith
    then show ?thesis
    proof cases
      case 1
      then show ?thesis using lp by (auto simp: ps e split: option.splits dest: getAt_prev)
    next
      case 2
      from d(12) [OF h(1,2)] 2 have "t (padded (t_anchors s') ?x) = t (padded (t_anchors s) ?x)"
        by simp
      then show ?thesis
        using 2 lp by (auto simp: ps e padded_update split: option.splits)
    next
      case 3
      with h(3) si have "nat (lB - 1) \<noteq> nat (uB + 1) \<or> \<not> found p en" by auto
      from d(12) [OF h(1,2)] this have "t (padded (t_anchors s') ?x) = t (padded (t_anchors s) ?x)"
        by simp
      then show ?thesis
        using 3 lp by (auto simp: ps e split: option.splits)
    qed
  qed
qed


lemma agree_step:
  assumes ag: "agree p bg en lB uB i s s'" and n: "i < length (vertices p)"
    and st: "update_step p bg en lB uB i s = Inr s1"
  shows "\<exists>s1'. update_step p bg en lB uB i s' = Inr s1' \<and> agree p bg en lB uB (Suc i) s1 s1'"
proof -
  note d = agreeD [OF ag]
  have lp: "i < length (pad i (t_anchors s))" "i < length (pad i (t_anchors s'))"
    using d(4,5) by (simp_all add: length_pad)
  consider (sample) "uB < int i" "t_right s = None"
    | (keep) "\<not> (uB < int i \<and> t_right s = None)" "lB \<le> int i" "int i \<le> uB"
    | (skip) "\<not> (uB < int i \<and> t_right s = None)" "\<not> (lB \<le> int i \<and> int i \<le> uB)"
    by auto
  then show ?thesis
  proof cases
    case skip
    have s1: "s1 = s\<lparr>t_anchors := pad i (t_anchors s)\<rparr>"
      using st step_skip [OF skip, of p bg en] by simp
    have s1': "update_step p bg en lB uB i s' = Inr (s'\<lparr>t_anchors := pad i (t_anchors s')\<rparr>)"
      using skip d(2) by (intro step_skip) simp_all
    show ?thesis using s1' agree_skip [OF ag skip] unfolding s1 by blast
  next
    case keep
    note e1 = step_keep [OF keep d(4) n, of bg en]
    have k': "\<not> (uB < int i \<and> t_right s' = None)" using keep d(2) by simp
    note e2 = step_keep [OF k' keep(2,3) d(5) n, of bg en]
    have s1: "s1 = s\<lparr>t_anchors := (pad i (t_anchors s))[i := keep_value p bg en lB uB i (padded (t_anchors s) i)],
            t_buffer := t_buffer s @ [i],
            t_right := (if int i = uB \<and> contains_path p en then Some i else t_right s),
            t_left := (if \<not> (int i = uB \<and> contains_path p en) \<and> int i = lB \<and> contains_path p bg
                       then Some i else t_left s)\<rparr>"
      using st e1 by simp
    have "agree p bg en lB uB (Suc i) s1
       (s'\<lparr>t_anchors := (pad i (t_anchors s'))[i := keep_value p bg en lB uB i (padded (t_anchors s') i)],
            t_buffer := t_buffer s' @ [i],
            t_right := (if int i = uB \<and> contains_path p en then Some i else t_right s),
            t_left := (if \<not> (int i = uB \<and> contains_path p en) \<and> int i = lB \<and> contains_path p bg
                       then Some i else t_left s)\<rparr>)"
      unfolding s1 by (rule agree_keep [OF ag keep(2,3)]) simp_all
    moreover have "update_step p bg en lB uB i s' =
       Inr (s'\<lparr>t_anchors := (pad i (t_anchors s'))[i := keep_value p bg en lB uB i (padded (t_anchors s') i)],
            t_buffer := t_buffer s' @ [i],
            t_right := (if int i = uB \<and> contains_path p en then Some i else t_right s),
            t_left := (if \<not> (int i = uB \<and> contains_path p en) \<and> int i = lB \<and> contains_path p bg
                       then Some i else t_left s)\<rparr>)"
      using e2 unfolding d(2,3) .
    ultimately show ?thesis by blast
  next
    case sample
    from sample_success [OF sample st] obtain v u
      where cs: "copy_and_sample p (pad i (t_anchors s)) (int i) en = Inr v"
        and u: "getAt (vertices p) (int i - 1) \<noteq> None \<longrightarrow> t v = Some u"
      by blast
    have s1: "s1 = s\<lparr>t_anchors := sample_anchors p i v u (pad i (t_anchors s)),
            t_buffer := t_buffer s @ [i], t_right := Some i\<rparr>"
      using st step_sample_any [OF sample d(4) cs u, of bg lB] by simp
    have r': "t_right s' = None" using sample d(2) by simp
    have si: "i = nat (uB + 1)" using d(9) [OF sample(2)] sample(1) by linarith
    have "\<exists>v' u'. copy_and_sample p (pad i (t_anchors s')) (int i) en = Inr v'
        \<and> (getAt (vertices p) (int i - 1) \<noteq> None \<longrightarrow> t v' = Some u')
        \<and> (exceptional p bg en lB uB i \<or> (v' = v \<and> u' = u))
        \<and> (exceptional p bg en lB uB i \<longrightarrow> t v' \<noteq> None)"
    proof (cases "found p en")
      case True
      then have "\<not> exceptional p bg en lB uB i" by (simp add: exceptional_def)
      moreover have "copy_and_sample p (pad i (t_anchors s')) (int i) en = Inr v"
        using copy_and_sample_found [OF True lp(2) lp(1)] cs by simp
      ultimately show ?thesis using u by (intro exI [of _ v] exI [of _ u]) simp
    next
      case False
      note f = copy_and_sample_unfound [OF False lp(1) cs]
      note cs' = f(2) [OF lp(2)]
      let ?v' = "anchor_copy (pad i (t_anchors s') ! i) (vertices p ! i)"
      show ?thesis
      proof (cases "exceptional p bg en lB uB i")
        case True
        from d(8) [OF _ True] obtain u' where "t (padded (t_anchors s') i) = Some u'" by auto
        then have "t ?v' = Some u'" using nth_padded [OF lp(2)] by simp
        with cs' True show ?thesis by (intro exI [of _ ?v'] exI [of _ u']) simp
      next
        case ne: False
        from d(7) [of i] si False ne
        have "t (padded (t_anchors s') i) = t (padded (t_anchors s) i)" by simp
        then have "t (pad i (t_anchors s') ! i) = t (pad i (t_anchors s) ! i)"
          using nth_padded [OF lp(1)] nth_padded [OF lp(2)] by simp
        then have "?v' = v" unfolding f(1) by (rule anchor_copy_t)
        with cs' u ne show ?thesis by (intro exI [of _ v] exI [of _ u]) simp
      qed
    qed
    then obtain v' u' where cs': "copy_and_sample p (pad i (t_anchors s')) (int i) en = Inr v'"
      and u': "getAt (vertices p) (int i - 1) \<noteq> None \<longrightarrow> t v' = Some u'"
      and vv: "exceptional p bg en lB uB i \<or> (v' = v \<and> u' = u)"
      and tv: "exceptional p bg en lB uB i \<longrightarrow> t v' \<noteq> None"
      by blast
    note e2 = step_sample_any [OF sample(1) r' d(5) cs' u', of bg lB]
    show ?thesis using e2 agree_sample [OF ag sample vv tv] unfolding s1 by blast
  qed
qed


lemma agree_loop:
  "agree p bg en lB uB i s s' \<Longrightarrow> i + k \<le> length (vertices p)
    \<Longrightarrow> update_loop p bg en lB uB k i s = Inr s1
    \<Longrightarrow> \<exists>s1'. update_loop p bg en lB uB k i s' = Inr s1' \<and> agree p bg en lB uB (i + k) s1 s1'"
proof (induction k arbitrary: i s s')
  case 0
  then show ?case by simp
next
  case (Suc k)
  from Suc.prems(3) obtain s2 where st: "update_step p bg en lB uB i s = Inr s2"
    and lp: "update_loop p bg en lB uB k (i + 1) s2 = Inr s1"
    by (auto split: sum.splits)
  have n: "i < length (vertices p)" using Suc.prems(2) by simp
  from agree_step [OF Suc.prems(1) n st] obtain s2'
    where st': "update_step p bg en lB uB i s' = Inr s2'" and ag: "agree p bg en lB uB (Suc i) s2 s2'"
    by blast
  have "Suc i + k \<le> length (vertices p)" using Suc.prems(2) by simp
  from Suc.IH [OF ag this] lp obtain s1'
    where "update_loop p bg en lB uB k (Suc i) s2' = Inr s1'" "agree p bg en lB uB (Suc i + k) s1 s1'"
    by auto
  then show ?case using st' by simp
qed

lemma frame_step:
  assumes n: "i < length (vertices p)" and len: "i \<le> length (t_anchors s)"
    and st: "update_step p bg en lB uB i s = Inr s1"
    and r: "t_right s = None \<longrightarrow> i \<le> nat (uB + 1)"
    and l: "t_left s \<noteq> None \<longrightarrow> lB \<le> uB"
  shows "Suc i \<le> length (t_anchors s1)"
    and "t_right s1 = None \<longrightarrow> Suc i \<le> nat (uB + 1)"
    and "t_left s1 \<noteq> None \<longrightarrow> lB \<le> uB"
    and "j \<noteq> nat (uB + 1) \<or> \<not> found p en
          \<Longrightarrow> t (padded (t_anchors s1) j) = t (padded (t_anchors s) j)"
proof -
  have lp: "i < length (pad i (t_anchors s))" using len by (simp add: length_pad)
  consider (sample) "uB < int i" "t_right s = None"
    | (keep) "\<not> (uB < int i \<and> t_right s = None)" "lB \<le> int i" "int i \<le> uB"
    | (skip) "\<not> (uB < int i \<and> t_right s = None)" "\<not> (lB \<le> int i \<and> int i \<le> uB)"
    by auto
  then have "Suc i \<le> length (t_anchors s1) \<and> (t_right s1 = None \<longrightarrow> Suc i \<le> nat (uB + 1))
     \<and> (t_left s1 \<noteq> None \<longrightarrow> lB \<le> uB)
     \<and> (j \<noteq> nat (uB + 1) \<or> \<not> found p en
          \<longrightarrow> t (padded (t_anchors s1) j) = t (padded (t_anchors s) j))"
  proof cases
    case skip
    have "s1 = s\<lparr>t_anchors := pad i (t_anchors s)\<rparr>"
      using st step_skip [OF skip, of p bg en] by simp
    then show ?thesis using lp r l skip by auto
  next
    case keep
    have "s1 = s\<lparr>t_anchors := (pad i (t_anchors s))[i := keep_value p bg en lB uB i (padded (t_anchors s) i)],
            t_buffer := t_buffer s @ [i],
            t_right := (if int i = uB \<and> contains_path p en then Some i else t_right s),
            t_left := (if \<not> (int i = uB \<and> contains_path p en) \<and> int i = lB \<and> contains_path p bg
                       then Some i else t_left s)\<rparr>"
      using st step_keep [OF keep len n, of bg en] by simp
    then show ?thesis using lp r l keep by (auto simp: padded_update)
  next
    case sample
    from sample_success [OF sample st] obtain v u
      where cs: "copy_and_sample p (pad i (t_anchors s)) (int i) en = Inr v"
        and u: "getAt (vertices p) (int i - 1) \<noteq> None \<longrightarrow> t v = Some u"
      by blast
    have s1: "s1 = s\<lparr>t_anchors := sample_anchors p i v u (pad i (t_anchors s)),
            t_buffer := t_buffer s @ [i], t_right := Some i\<rparr>"
      using st step_sample_any [OF sample len cs u, of bg lB] by simp
    have si: "i = nat (uB + 1)" using r sample by linarith
    have tv: "t v = t (padded (t_anchors s) i)" if "\<not> found p en"
      using copy_and_sample_unfound(1) [OF that lp cs] nth_padded [OF lp] by simp
    show ?thesis
      unfolding s1 using lp l si tv
      by (auto simp: padded_sample_anchors padded_update split: option.splits dest: getAt_prev)
  qed
  then show "Suc i \<le> length (t_anchors s1)"
    and "t_right s1 = None \<longrightarrow> Suc i \<le> nat (uB + 1)"
    and "t_left s1 \<noteq> None \<longrightarrow> lB \<le> uB"
    and "j \<noteq> nat (uB + 1) \<or> \<not> found p en
          \<Longrightarrow> t (padded (t_anchors s1) j) = t (padded (t_anchors s) j)"
    by simp_all
qed

lemma frame_loop:
  "i + k \<le> length (vertices p) \<Longrightarrow> i \<le> length (t_anchors s)
    \<Longrightarrow> update_loop p bg en lB uB k i s = Inr s1
    \<Longrightarrow> t_right s = None \<longrightarrow> i \<le> nat (uB + 1)
    \<Longrightarrow> t_left s \<noteq> None \<longrightarrow> lB \<le> uB
    \<Longrightarrow> i + k \<le> length (t_anchors s1) \<and> (t_left s1 \<noteq> None \<longrightarrow> lB \<le> uB)
     \<and> (\<forall>j. j \<noteq> nat (uB + 1) \<or> \<not> found p en
            \<longrightarrow> t (padded (t_anchors s1) j) = t (padded (t_anchors s) j))"
proof (induction k arbitrary: i s)
  case 0
  then show ?case by simp
next
  case (Suc k)
  from Suc.prems(3) obtain s2 where st: "update_step p bg en lB uB i s = Inr s2"
    and lp: "update_loop p bg en lB uB k (Suc i) s2 = Inr s1"
    by (auto split: sum.splits)
  have n: "i < length (vertices p)" using Suc.prems(1) by simp
  note f = frame_step [OF n Suc.prems(2) st Suc.prems(4,5)]
  have "Suc i + k \<le> length (vertices p)" using Suc.prems(1) by simp
  from Suc.IH [OF this f(1) lp f(2,3)] f(4) show ?case by simp
qed


lemma prepend_form_any:
  assumes "0 < lB" and "t_left s = None"
    and cs: "copy_and_sample p (t_anchors s) (lB - 1) bg = Inr v"
    and u: "getAt (vertices p) lB \<noteq> None \<longrightarrow> t v = Some u"
    and len: "length (vertices p) \<le> length (t_anchors s)"
  shows "prepend_trimmed p bg lB s =
     Inr (s\<lparr>t_anchors := prepend_anchors p (nat (lB - 1)) v u (t_anchors s),
            t_buffer := nat (lB - 1) # t_buffer s\<rparr>)"
proof (cases "getAt (vertices p) lB")
  case None
  have i: "int (nat (lB - 1)) + 1 = lB" "lB - 1 + 1 = lB" using assms(1) by simp_all
  show ?thesis
    unfolding prepend_trimmed_def
    using assms(1,2) by (simp add: Let_def cs i None prepend_anchors_def)
next
  case (Some nxt)
  with u have "t v = Some u" by simp
  from prepend_form [OF assms(1,2) cs this len] show ?thesis .
qed

lemma prepend_success:
  assumes "0 < lB" and "t_left s = None"
    and "prepend_trimmed p bg lB s = Inr s1"
  obtains v u where "copy_and_sample p (t_anchors s) (lB - 1) bg = Inr v"
    and "getAt (vertices p) lB \<noteq> None \<longrightarrow> t v = Some u"
proof -
  from assms obtain v where cs: "copy_and_sample p (t_anchors s) (lB - 1) bg = Inr v"
    unfolding prepend_trimmed_def by (auto simp: Let_def split: sum.splits)
  have "getAt (vertices p) lB \<noteq> None \<longrightarrow> (\<exists>u. t v = Some u)"
    using assms unfolding prepend_trimmed_def
    by (auto simp: Let_def cs t_of_def split: option.splits sum.splits)
  then obtain u where "getAt (vertices p) lB \<noteq> None \<longrightarrow> t v = Some u" by blast
  with cs show ?thesis by (rule that)
qed

lemma t_project_left [simp]: "t (project_left w nxt u) = t w"
  by (simp add: project_left_def)

lemma frame_prepend:
  assumes len: "length (vertices p) \<le> length (t_anchors s)"
    and st: "prepend_trimmed p bg lB s = Inr s1"
  shows "length (t_anchors s1) = length (t_anchors s)"
    and "j \<noteq> nat (lB - 1) \<or> \<not> found p bg \<or> \<not> (0 < lB \<and> t_left s = None)
          \<Longrightarrow> t (padded (t_anchors s1) j) = t (padded (t_anchors s) j)"
    and "0 < lB \<Longrightarrow> t_left s = None \<Longrightarrow> found p bg
          \<Longrightarrow> t (padded (t_anchors s1) (nat (lB - 1))) \<noteq> None"
proof -
  have "length (t_anchors s1) = length (t_anchors s)
    \<and> (j \<noteq> nat (lB - 1) \<or> \<not> found p bg \<or> \<not> (0 < lB \<and> t_left s = None)
          \<longrightarrow> t (padded (t_anchors s1) j) = t (padded (t_anchors s) j))
    \<and> (0 < lB \<longrightarrow> t_left s = None \<longrightarrow> found p bg
          \<longrightarrow> t (padded (t_anchors s1) (nat (lB - 1))) \<noteq> None)"
  proof (cases "0 < lB \<and> t_left s = None")
    case False
    then show ?thesis using st by (auto simp: prepend_skip)
  next
    case True
    then have T: "0 < lB" "t_left s = None" by simp_all
    from prepend_success [OF T st] obtain v u
      where cs: "copy_and_sample p (t_anchors s) (lB - 1) bg = Inr v"
        and u: "getAt (vertices p) lB \<noteq> None \<longrightarrow> t v = Some u"
      by blast
    let ?x = "nat (lB - 1)"
    from copy_and_sample_range [OF cs] have x: "?x < length (t_anchors s)" by arith
    have ix: "int ?x + 1 = lB" "int ?x = lB - 1" using T(1) by simp_all
    have s1: "s1 = s\<lparr>t_anchors := prepend_anchors p ?x v u (t_anchors s),
            t_buffer := ?x # t_buffer s\<rparr>"
      using st prepend_form_any [OF T cs u len] by simp
    have cx: "copy_and_sample p (t_anchors s) (int ?x) bg = Inr v" using cs ix(2) by simp
    have tv: "t v = t (padded (t_anchors s) ?x)" if "\<not> found p bg"
      using copy_and_sample_unfound(1) [OF that x cx] nth_padded [OF x] by simp
    have tf: "t v \<noteq> None" if "found p bg"
      using copy_and_sample_found_t [OF that cs] by auto
    note pp = padded_prepend_anchors [OF x, unfolded ix(1), of p v u]
    show ?thesis
      unfolding s1 using tv tf T
      by (auto simp: pp padded_update split: option.splits)
  qed
  then show "length (t_anchors s1) = length (t_anchors s)"
    and "j \<noteq> nat (lB - 1) \<or> \<not> found p bg \<or> \<not> (0 < lB \<and> t_left s = None)
          \<Longrightarrow> t (padded (t_anchors s1) j) = t (padded (t_anchors s) j)"
    and "0 < lB \<Longrightarrow> t_left s = None \<Longrightarrow> found p bg
          \<Longrightarrow> t (padded (t_anchors s1) (nat (lB - 1))) \<noteq> None"
    by simp_all
qed


lemma agree_prepend:
  assumes ag: "agree p bg en lB uB (length (vertices p)) s s'"
    and st: "prepend_trimmed p bg lB s = Inr s1"
  shows "\<exists>s1'. prepend_trimmed p bg lB s' = Inr s1' \<and> t_buffer s1' = t_buffer s1
     \<and> (\<forall>j \<in> set (t_buffer s1). padded (t_anchors s1') j = padded (t_anchors s1) j
          \<and> j < length (t_anchors s1) \<and> j < length (t_anchors s1'))"
proof -
  note d = agreeD [OF ag]
  note len = d(4,5)
  have lt: "j < length (t_anchors s) \<and> j < length (t_anchors s')" if "j \<in> set (t_buffer s)" for j
    using d(6) [OF that] len by simp
  have exc_gap: "uB < lB" if "exceptional p bg en lB uB j" for j
    using that unfolding exceptional_def by linarith
  show ?thesis
  proof (cases "0 < lB \<and> t_left s = None")
    case False
    then have e: "s1 = s" "prepend_trimmed p bg lB s' = Inr s'"
      using st d(3) by (simp_all add: prepend_skip)
    have "padded (t_anchors s') j = padded (t_anchors s) j" if j: "j \<in> set (t_buffer s)" for j
    proof -
      have "\<not> exceptional p bg en lB uB j"
      proof
        assume x: "exceptional p bg en lB uB j"
        then have "0 < lB" by (simp add: exceptional_def)
        with False have "t_left s \<noteq> None" by simp
        from d(10) [OF this] exc_gap [OF x] show False by simp
      qed
      with d(6) [OF j] show ?thesis by simp
    qed
    then show ?thesis unfolding e using d(1) lt by simp
  next
    case True
    then have T: "0 < lB" "t_left s = None" by simp_all
    from prepend_success [OF T st] obtain v u
      where cs: "copy_and_sample p (t_anchors s) (lB - 1) bg = Inr v"
        and u: "getAt (vertices p) lB \<noteq> None \<longrightarrow> t v = Some u"
      by blast
    let ?x = "nat (lB - 1)"
    from copy_and_sample_range [OF cs]
    have x: "?x < length (t_anchors s)" "?x < length (vertices p)" by arith+
    then have x': "?x < length (t_anchors s')" using len by simp
    have ix: "int ?x + 1 = lB" "int ?x = lB - 1" using T(1) by simp_all
    have cx: "copy_and_sample p (t_anchors s) (int ?x) bg = Inr v" using cs ix(2) by simp
    have "copy_and_sample p (t_anchors s') (int ?x) bg = Inr v"
    proof (cases "found p bg")
      case True
      from copy_and_sample_found [OF True x' x(1)] cx show ?thesis by simp
    next
      case False
      note f = copy_and_sample_unfound [OF False x(1) cx]
      from d(12) [OF T(1) False] x(2)
      have "t (padded (t_anchors s') ?x) = t (padded (t_anchors s) ?x)" by simp
      then have "t (t_anchors s' ! ?x) = t (t_anchors s ! ?x)"
        using nth_padded [OF x(1)] nth_padded [OF x'] by simp
      then have "anchor_copy (t_anchors s' ! ?x) (vertices p ! ?x) = v"
        unfolding f(1) by (rule anchor_copy_t)
      with f(2) [OF x'] show ?thesis by simp
    qed
    then have cs': "copy_and_sample p (t_anchors s') (lB - 1) bg = Inr v"
      using ix(2) by simp
    have s1: "s1 = s\<lparr>t_anchors := prepend_anchors p ?x v u (t_anchors s),
            t_buffer := ?x # t_buffer s\<rparr>"
      using st prepend_form_any [OF T cs u len(1)] by simp
    have l': "t_left s' = None" using T d(3) by simp
    have e2: "prepend_trimmed p bg lB s' =
        Inr (s'\<lparr>t_anchors := prepend_anchors p ?x v u (t_anchors s'),
            t_buffer := ?x # t_buffer s'\<rparr>)"
      by (rule prepend_form_any [OF T(1) l' cs' u len(2)])
    have bufs: "j < length (t_anchors s) \<and> j < length (t_anchors s')
        \<and> (j = ?x \<or> padded (t_anchors s') j = padded (t_anchors s) j)"
      if j: "j \<in> set (t_buffer s)" for j
    proof -
      have "j = ?x" if "exceptional p bg en lB uB j" using that unfolding exceptional_def by linarith
      with d(6) [OF j] lt [OF j] show ?thesis by blast
    qed
    note pp = padded_prepend_anchors [OF x(1), unfolded ix(1), of p v u]
      padded_prepend_anchors [OF x', unfolded ix(1), of p v u]
    have P: "padded (prepend_anchors p ?x v u (t_anchors s')) j
        = padded (prepend_anchors p ?x v u (t_anchors s)) j"
      if j: "j = ?x \<or> j \<in> set (t_buffer s)" for j
    proof (cases "getAt (vertices p) lB")
      case None
      then show ?thesis
        using j bufs [of j] unfolding pp by auto
    next
      case (Some nxt)
      then have "Suc ?x < length (vertices p)" using T(1) by (auto simp: getAt_def split: if_splits)
      then have sx: "?x + 1 < length (t_anchors s)" "?x + 1 < length (t_anchors s')"
        using len by simp_all
      have nb: "padded (t_anchors s') (?x + 1) = padded (t_anchors s) (?x + 1)"
        if "j = ?x + 1" using that j bufs [of j] by auto
      show ?thesis
        using j bufs [of j] sx nb unfolding pp Some
        by (auto simp: padded_update)
    qed
    have "\<forall>j \<in> set (?x # t_buffer s).
        padded (prepend_anchors p ?x v u (t_anchors s')) j
          = padded (prepend_anchors p ?x v u (t_anchors s)) j
        \<and> j < length (t_anchors s) \<and> j < length (t_anchors s')"
      using P lt x(1) x' by auto
    then show ?thesis
      unfolding e2 s1 using d(1) by simp
  qed
qed

lemma loop_twice:
  assumes l1: "update_loop p bg en lB uB (length (vertices p)) 0 (start_trim A) = Inr s1"
    and p1: "prepend_trimmed p bg lB s1 = Inr s2"
  shows "\<exists>s1' s2'. update_loop p bg en lB uB (length (vertices p)) 0 (start_trim (t_anchors s2)) = Inr s1'
     \<and> prepend_trimmed p bg lB s1' = Inr s2' \<and> t_buffer s2' = t_buffer s2
     \<and> map ((!) (t_anchors s2')) (t_buffer s2') = map ((!) (t_anchors s2)) (t_buffer s2)"
proof -
  have f1: "length (vertices p) \<le> length (t_anchors s1)" "t_left s1 \<noteq> None \<longrightarrow> lB \<le> uB"
    "\<And>j. j \<noteq> nat (uB + 1) \<or> \<not> found p en \<Longrightarrow> t (padded (t_anchors s1) j) = t (padded A j)"
    using frame_loop [OF _ _ l1] by (simp_all add: start_trim_def)
  note f2 = frame_prepend [OF f1(1) p1]
  have ag0: "agree p bg en lB uB 0 (start_trim A) (start_trim (t_anchors s2))"
  proof (rule agreeI)
    show "exceptional p bg en lB uB j
        \<or> t (padded (t_anchors (start_trim (t_anchors s2))) j) = t (padded (t_anchors (start_trim A)) j)"
      if "(lB \<le> int j \<and> int j \<le> uB) \<or> (j = nat (uB + 1) \<and> \<not> found p en)" for j
    proof (cases "exceptional p bg en lB uB j")
      case False
      have a: "j \<noteq> nat (uB + 1) \<or> \<not> found p en" using that by linarith
      have b: "j \<noteq> nat (lB - 1) \<or> \<not> found p bg \<or> \<not> (0 < lB \<and> t_left s1 = None)"
      proof (rule ccontr)
        assume "\<not> ?thesis"
        then have c: "j = nat (lB - 1)" "found p bg" "0 < lB" "t_left s1 = None" by simp_all
        with that have "j = nat (uB + 1) \<and> \<not> found p en" by linarith
        with c False show False by (simp add: exceptional_def)
      qed
      from f2(2) [OF b] f1(3) [OF a] show ?thesis by (simp add: start_trim_def)
    qed simp
    show "t (padded (t_anchors (start_trim (t_anchors s2))) j) \<noteq> None"
      if "exceptional p bg en lB uB j" for j
    proof -
      from that have e: "0 < lB" "found p bg" "int j = lB - 1" "j = nat (uB + 1)"
        unfolding exceptional_def by blast+
      then have "\<not> lB \<le> uB" by linarith
      with f1(2) have "t_left s1 = None" by blast
      moreover have "nat (lB - 1) = j" using e(3) by linarith
      ultimately show ?thesis using f2(3) [OF e(1) _ e(2)] by (simp add: start_trim_def)
    qed
    show "t (padded (t_anchors (start_trim (t_anchors s2))) (nat (lB - 1)))
        = t (padded (t_anchors (start_trim A)) (nat (lB - 1)))"
      if "0 < lB" "\<not> found p bg"
        "nat (lB - 1) < 0 \<or> nat (lB - 1) \<noteq> nat (uB + 1) \<or> \<not> found p en"
      using f2(2) [of "nat (lB - 1)"] f1(3) [of "nat (lB - 1)"] that by (simp add: start_trim_def)
  qed (simp_all add: start_trim_def)
  from agree_loop [OF ag0 _ l1] obtain s1'
    where l2: "update_loop p bg en lB uB (length (vertices p)) 0 (start_trim (t_anchors s2)) = Inr s1'"
      and ag: "agree p bg en lB uB (length (vertices p)) s1 s1'"
    by auto
  from agree_prepend [OF ag p1] obtain s2'
    where p2: "prepend_trimmed p bg lB s1' = Inr s2'" and b: "t_buffer s2' = t_buffer s2"
      and v: "\<forall>j \<in> set (t_buffer s2). padded (t_anchors s2') j = padded (t_anchors s2) j
          \<and> j < length (t_anchors s2) \<and> j < length (t_anchors s2')"
    by blast
  have "map ((!) (t_anchors s2')) (t_buffer s2') = map ((!) (t_anchors s2)) (t_buffer s2)"
    unfolding b using v by (auto simp: padded_def)
  then show ?thesis using l2 p2 b by blast
qed

lemma rebuild_twice:
  assumes r: "rebuild p A = Inr s"
  shows "\<exists>s'. rebuild p (t_anchors s) = Inr s' \<and> t_buffer s' = t_buffer s
     \<and> map ((!) (t_anchors s')) (t_buffer s') = map ((!) (t_anchors s)) (t_buffer s)"
proof -
  from r obtain s1 where
    l1: "update_loop p (min (beginning p) (ending p)) (max (beginning p) (ending p))
          \<lceil>getIdByLength p (min (beginning p) (ending p) * length_val p)\<rceil>
          \<lfloor>getIdByLength p (max (beginning p) (ending p) * length_val p)\<rfloor>
          (length (vertices p)) 0 (start_trim A) = Inr s1"
    and p1: "prepend_trimmed p (min (beginning p) (ending p))
          \<lceil>getIdByLength p (min (beginning p) (ending p) * length_val p)\<rceil> s1 = Inr s"
    unfolding rebuild_def Let_def by (auto split: sum.splits)
  from loop_twice [OF l1 p1] show ?thesis
    unfolding rebuild_def Let_def by auto
qed

lemma update_dirty:
  assumes "flags p Vertices"
  shows "update env p =
     (case rebuild (prepared env p) (anchors (prepared env p)) of
        Inl e \<Rightarrow> Inl e
      | Inr s \<Rightarrow>
          Inr ((prepared env p)\<lparr>anchors := t_anchors s, zzz_vertices := t_buffer s,
                 vertices_subject := vertices_subject (prepared env p) + 1\<rparr>))"
  using assms
  by (simp add: update_def prepared_def rebuild_def start_trim_def updateLength_silent_eq Let_def
      Shape_update_def split: sum.splits)

lemma update_clean: "\<not> flags p Vertices \<Longrightarrow> update env p = Inr p"
  by (simp add: update_def Shape_update_def)

lemma plot_fields:
  "flags (plot env p) = flags p" "anchors (plot env p) = anchors p"
  "zzz_vertices (plot env p) = zzz_vertices p" "vertices_subject (plot env p) = vertices_subject p"
  "automatic (plot env p) = automatic p" "curved (plot env p) = curved p"
  "closed (plot env p) = closed p" "beginning (plot env p) = beginning p"
  "ending (plot env p) = ending p" "lengths (plot env p) = lengths p"
  "length_val (plot env p) = length_val p"
  by (simp_all add: plot_def)

lemma prepared_fields:
  "flags (prepared env p) = (flags p)(Length := False)"
  "anchors (prepared env p) = anchors p"
  "vertices_subject (prepared env p) = vertices_subject p"
  "automatic (prepared env p) = automatic p" "curved (prepared env p) = curved p"
  "closed (prepared env p) = closed p"
  "beginning (prepared env p) = beginning p" "ending (prepared env p) = ending p"
  by (auto simp: prepared_def Let_def plot_fields fun_eq_iff)

lemma plot_commands_idem: "plot_commands i (plot_commands i vs) = plot_commands i vs"
  by (induction i vs rule: plot_commands.induct) simp_all

lemma vertices_prepared:
  "vertices (prepared env p) = (if automatic p then vertices (plot env p) else vertices p)"
  by (simp add: prepared_def Let_def)


text \<open>
  The loop and the prepending read the vertices, the table, the total and \<open>closed\<close> only.
\<close>

lemma getPointAt_at_storage:
  "getPointAt_at len (p\<lparr>anchors := a, zzz_vertices := z, vertices_subject := c\<rparr>) u ank
     = getPointAt_at len p u ank"
  by (simp add: getPointAt_at_def cong: option.case_cong sum.case_cong prod.case_cong)

lemma copy_and_sample_storage:
  "copy_and_sample (p\<lparr>anchors := a, zzz_vertices := z, vertices_subject := c\<rparr>) ancs i u
     = copy_and_sample p ancs i u"
  by (simp add: copy_and_sample_def getPointAt_at_storage cong: sum.case_cong)

lemma contains_path_storage:
  "contains_path (p\<lparr>anchors := a, zzz_vertices := z, vertices_subject := c\<rparr>) u
     = contains_path p u"
  by (simp add: contains_path_def)

lemma update_step_storage:
  "update_step (p\<lparr>anchors := a, zzz_vertices := z, vertices_subject := c\<rparr>) bg en lB uB i s
     = update_step p bg en lB uB i s"
  unfolding update_step_def copy_and_sample_storage contains_path_storage
  by (simp cong: option.case_cong sum.case_cong if_cong)

lemma update_loop_storage:
  "update_loop (p\<lparr>anchors := a, zzz_vertices := z, vertices_subject := c\<rparr>) bg en lB uB k i s
     = update_loop p bg en lB uB k i s"
  by (induction k arbitrary: i s) (simp_all add: update_step_storage cong: sum.case_cong)

lemma prepend_trimmed_storage:
  "prepend_trimmed (p\<lparr>anchors := a, zzz_vertices := z, vertices_subject := c\<rparr>) bg lB s
     = prepend_trimmed p bg lB s"
  unfolding prepend_trimmed_def copy_and_sample_storage
  by (simp cong: option.case_cong sum.case_cong if_cong)

lemma getIdByLength_storage:
  "getIdByLength (p\<lparr>anchors := a, zzz_vertices := z, vertices_subject := c\<rparr>) x
     = getIdByLength p x"
  by (simp add: getIdByLength_def)

lemma rebuild_storage:
  "rebuild (p\<lparr>anchors := a, zzz_vertices := z, vertices_subject := c\<rparr>) A = rebuild p A"
  unfolding rebuild_def update_loop_storage prepend_trimmed_storage getIdByLength_storage
  by (simp cong: sum.case_cong)

lemma render_buffer_storage:
  "render_buffer (p\<lparr>anchors := a, zzz_vertices := z, vertices_subject := c\<rparr>) = map ((!) a) z"
  by (simp add: render_buffer_def)

lemma prepared_again:
  assumes q: "q = (prepared env p)\<lparr>anchors := a, zzz_vertices := z, vertices_subject := c\<rparr>"
    and stable: "automatic p \<and> curved p \<longrightarrow> curveFromPoints env (vertices q) (closed q) = vertices q"
  shows "prepared env q = q"
proof -
  have fl: "\<not> flags q Length" unfolding q by (simp add: prepared_fields)
  have au: "automatic q = automatic p" "curved q = curved p"
    unfolding q by (simp_all add: prepared_fields)
  have "plot env q = q" if a: "automatic p"
  proof (cases "curved p")
    case True
    then show ?thesis using stable a au by (simp add: plot_def)
  next
    case False
    have "vertices q = plot_commands 0 (vertices p)"
      unfolding q using a False by (simp add: vertices_prepared plot_def)
    then have "plot_commands 0 (vertices q) = vertices q"
      by (simp add: plot_commands_idem)
    then show ?thesis using False au by (simp add: plot_def)
  qed
  then show ?thesis
    using fl au by (simp add: prepared_def Let_def)
qed

lemma update_twice:
  assumes u: "update env p = Inr q"
    and stable: "automatic p \<and> curved p \<longrightarrow> curveFromPoints env (vertices q) (closed q) = vertices q"
  shows "\<exists>r. update env q = Inr r \<and> render_buffer r = render_buffer q
     \<and> flags q = (if flags p Vertices then (flags p)(Length := False) else flags p)
     \<and> flags r = flags q
     \<and> vertices_subject q = vertices_subject p + (if flags p Vertices then 1 else 0)
     \<and> vertices_subject r = vertices_subject q + (if flags p Vertices then 1 else 0)
     \<and> update env (flagReset False q) = Inr (flagReset False q)"
proof -
  have reset: "update env (flagReset False q) = Inr (flagReset False q)"
    by (rule update_clean) (simp add: flagReset_def)
  show ?thesis
  proof (cases "flags p Vertices")
    case False
    then have "q = p" using u by (simp add: update_clean)
    then show ?thesis using False reset by (simp add: update_clean)
  next
    case True
    let ?P = "prepared env p"
    from u obtain s where r1: "rebuild ?P (anchors ?P) = Inr s"
      and q: "q = ?P\<lparr>anchors := t_anchors s, zzz_vertices := t_buffer s,
                 vertices_subject := vertices_subject ?P + 1\<rparr>"
      unfolding update_dirty [OF True] by (auto split: sum.splits)
    have fq: "flags q = (flags p)(Length := False)" unfolding q by (simp add: prepared_fields)
    then have vq: "flags q Vertices" using True by simp
    have pq: "prepared env q = q" using q stable by (rule prepared_again)
    from rebuild_twice [OF r1] obtain s'
      where r2: "rebuild ?P (t_anchors s) = Inr s'" and b: "t_buffer s' = t_buffer s"
        and v: "map ((!) (t_anchors s')) (t_buffer s') = map ((!) (t_anchors s)) (t_buffer s)"
      by blast
    have r2': "rebuild q (anchors q) = Inr s'"
      using r2 unfolding q by (simp add: rebuild_storage)
    let ?r = "q\<lparr>anchors := t_anchors s', zzz_vertices := t_buffer s',
                 vertices_subject := vertices_subject q + 1\<rparr>"
    have ur: "update env q = Inr ?r"
      unfolding update_dirty [OF vq] pq r2' by simp
    have rb: "render_buffer ?r = render_buffer q"
      unfolding q using v by (simp add: render_buffer_def)
    have sq: "vertices_subject q = vertices_subject p + 1"
      unfolding q by (simp add: prepared_fields)
    show ?thesis
      using ur rb fq sq True reset by simp
  qed
qed


lemma updated_trimmed_345:
  assumes "update env trimmed_345 = Inr q"
  shows "flags q Vertices" and "vertices_subject q = 1"
  using assms unfolding update_trimmed_345
  by (auto simp: trimmed_345_def set_ending_def set_beginning_def open_345_def new_Path_def)

lemma trimmed_345_fields: "\<not> curved trimmed_345" "flags trimmed_345 Vertices"
  by (simp_all add: trimmed_345_def set_ending_def set_beginning_def open_345_def new_Path_def)

text \<open>
  C4, as stated, fails: after the first \<open>update()\<close> of the trimmed example the Vertices flag
  is still set, and the second \<open>update()\<close> increments the version counter again.
\<close>

theorem idempotence_counterexample:
  "\<exists>q r. update straight_utils trimmed_345 = Inr q \<and> flags q Vertices
     \<and> update straight_utils q = Inr r \<and> vertices_subject q = 1 \<and> vertices_subject r = 2"
proof -
  obtain q where q: "update straight_utils trimmed_345 = Inr q"
    using update_trimmed_345_succeeds by blast
  note f = updated_trimmed_345 [OF q]
  from update_twice [OF q] trimmed_345_fields
  obtain r where "update straight_utils q = Inr r" "vertices_subject r = vertices_subject q + 1"
    by auto
  then show ?thesis using q f by auto
qed

text \<open>
  C4, amended. Let \<open>update()\<close> succeed on a path, and let the curve fitting be stable on its
  own result when the path is automatic and curved. Then a second \<open>update()\<close> in a row
  succeeds and produces the identical render buffer. \<open>update()\<close> clears no flag but Length:
  the Vertices flag stays set until \<open>flagReset\<close>, and each \<open>update()\<close> that finds it set
  increments the version counter by one, the second call included. A call that finds the
  Vertices flag clear changes nothing; so after \<open>flagReset(false)\<close> a further \<open>update()\<close>
  leaves the path, its buffer and its counter as they are.
\<close>

theorem idempotence_amended:
  assumes "update env p = Inr q"
    and "automatic p \<and> curved p \<longrightarrow> curveFromPoints env (vertices q) (closed q) = vertices q"
  shows "\<exists>r. update env q = Inr r \<and> render_buffer r = render_buffer q
     \<and> flags q = (if flags p Vertices then (flags p)(Length := False) else flags p)
     \<and> flags r = flags q
     \<and> vertices_subject q = vertices_subject p + (if flags p Vertices then 1 else 0)
     \<and> vertices_subject r = vertices_subject q + (if flags p Vertices then 1 else 0)
     \<and> update env (flagReset False q) = Inr (flagReset False q)"
  using assms by (rule update_twice)

theorem idempotence_amended_witness:
  "\<exists>q r. update straight_utils trimmed_345 = Inr q
     \<and> \<not> curved trimmed_345 \<and> flags trimmed_345 Vertices
     \<and> update straight_utils q = Inr r \<and> render_buffer r = render_buffer q
     \<and> flags q = (flags trimmed_345)(Length := False) \<and> flags r = flags q
     \<and> vertices_subject r = vertices_subject q + 1
     \<and> update straight_utils (flagReset False q) = Inr (flagReset False q)"
proof -
  obtain q where q: "update straight_utils trimmed_345 = Inr q"
    using update_trimmed_345_succeeds by blast
  have st: "automatic trimmed_345 \<and> curved trimmed_345
      \<longrightarrow> curveFromPoints straight_utils (vertices q) (closed q) = vertices q"
    using trimmed_345_fields by simp
  from idempotence_amended [OF q st] trimmed_345_fields
  obtain r where "update straight_utils q = Inr r" "render_buffer r = render_buffer q"
    "flags q = (flags trimmed_345)(Length := False)" "flags r = flags q"
    "vertices_subject r = vertices_subject q + 1"
    "update straight_utils (flagReset False q) = Inr (flagReset False q)"
    by auto
  then show ?thesis using q trimmed_345_fields by blast
qed

end
